theory Spec2Isabelle
  imports Main "HOL-Library.Word"
begin

unbundle bit_operations_syntax

section \<open>Data model of client.cpp\<close>

text \<open>
  The client walks a directory and uploads every regular file over a TCP stream:
  name length, name, file size, payload, checksum length, checksum. The embedding
  below follows \<^verbatim>\<open>src/client.cpp\<close> function by function. Bytes are 8-bit words,
  \<^verbatim>\<open>uint32_t\<close> is a 32-bit word and \<^verbatim>\<open>size_t\<close> a 64-bit word (an LP64 target),
  so every conversion and every product wraps as it does in the program.
\<close>

type_synonym byte = "8 word"
type_synonym uint32_t = "32 word"
type_synonym size_t = "64 word"
type_synonym path = string

definition CHUNK_SIZE :: nat where
  "CHUNK_SIZE = 4096"

definition MAX_RETRIES :: int where
  "MAX_RETRIES = 3"

definition RETRY_INTERVAL :: int where
  "RETRY_INTERVAL = 5"

definition MD5_DIGEST_LENGTH :: nat where
  "MD5_DIGEST_LENGTH = 16"

text \<open>
  The two exception classes the program can see: \<^verbatim>\<open>boost::system::system_error\<close>
  (resolve, connect and write failures) and \<^verbatim>\<open>std::runtime_error\<close> (thrown by
  \<^verbatim>\<open>calculate_md5\<close>). Both derive from \<^verbatim>\<open>std::exception\<close>.
\<close>

datatype exn = system_error | runtime_error

text \<open>
  Everything the program does that can be observed from outside, in program order:
  the lines it prints and the network and timer calls it makes.
\<close>

datatype event =
    Connecting
  | Resolve
  | Connect
  | Progress size_t
  | Endl
  | FailedToOpen path
  | FailedToSendData
  | ConnectionError int
  | Sleep int
  | FailedAfterRetries
  | CalculatedMD5 string
  | SentFile path size_t string
  | AllProcessed
  | Error exn

text \<open>
  A connected socket: the bytes delivered so far and how many more bytes the connection
  will take before a write throws (\<open>None\<close>: it never fails).
\<close>

record socket =
  sent :: "byte list"
  room :: "nat option"

datatype link = Refused | Link "nat option"

text \<open>
  The environment. The resolver, the network and the file system are scripts indexed by
  the number of the call: the \<open>k\<close>-th resolve succeeds or not, the \<open>k\<close>-th connect is
  refused or yields a link, the \<open>k\<close>-th open of a path fails or yields a stream. Of such a
  stream \<open>disk\<close> gives the bytes its reads will yield, in order, and \<open>tell\<close> the answer
  of \<^verbatim>\<open>tellg()\<close> at the end of the file. The program never compares the two, and the
  file is read while other programs may write it, so the world is free to choose them
  apart: a file that grows or shrinks after it was measured, or a \<^verbatim>\<open>tellg()\<close> of 0 or -1.
  The counters say how many calls were made; \<open>trace\<close> records the events; \<open>wires\<close> keeps,
  for every socket that went out of scope, the bytes that were delivered on it.
\<close>

record world =
  dns :: "nat \<Rightarrow> bool"
  net :: "nat \<Rightarrow> link"
  disk :: "nat \<Rightarrow> path \<Rightarrow> byte list option"
  tell :: "nat \<Rightarrow> path \<Rightarrow> int"
  resolves :: nat
  connects :: nat
  opens :: nat
  trace :: "event list"
  wires :: "byte list list"

definition emit :: "world \<Rightarrow> event \<Rightarrow> world" where
  "emit w e = w\<lparr>trace := trace w @ [e]\<rparr>"

subsection \<open>The input file stream\<close>

text \<open>
  A \<^verbatim>\<open>std::ifstream\<close> opened in binary mode: the bytes its reads have still to yield,
  the fail bit, and what \<^verbatim>\<open>tellg()\<close> answers when the get position is at the end.
\<close>

record ifstream =
  unread :: "byte list"
  failbit :: bool
  end_pos :: int

definition ifstream_open :: "world \<Rightarrow> path \<Rightarrow> ifstream option \<times> world" where
  "ifstream_open w p =
     (map_option (\<lambda>c. \<lparr>unread = c, failbit = False, end_pos = tell w (opens w) p\<rparr>)
        (disk w (opens w) p),
      w\<lparr>opens := opens w + 1\<rparr>)"

text \<open>
  \<^verbatim>\<open>file.seekg(0, std::ios::end); file.tellg(); file.seekg(0, std::ios::beg)\<close>: the
  position of the end as the stream reports it; the reads start at the beginning again.
  The program does not look at the state of the stream after these calls, and nothing
  ties the answer to what the reads deliver afterwards. A stream on which the seeks fail
  answers -1 and its reads extract nothing: in the world it is a stream with no bytes.
\<close>

definition seekg_end_tellg :: "ifstream \<Rightarrow> int" where
  "seekg_end_tellg f = end_pos f"

text \<open>
  \<^verbatim>\<open>file.read(buffer, n)\<close>: nothing is extracted from a failed stream; otherwise up to
  \<open>n\<close> bytes overwrite the front of the buffer, and the fail bit is set when fewer than
  \<open>n\<close> were there. The result is the stream, the buffer and \<^verbatim>\<open>gcount()\<close>.
\<close>

definition ifstream_read :: "ifstream \<Rightarrow> byte list \<Rightarrow> nat \<Rightarrow> ifstream \<times> byte list \<times> nat" where
  "ifstream_read f buffer n =
     (if failbit f then (f, buffer, 0)
      else let got = take n (unread f)
           in (f\<lparr>unread := drop n (unread f), failbit := length got < n\<rparr>,
               got @ drop (length got) buffer,
               length got))"

subsection \<open>The MD5 library\<close>

text \<open>
  OpenSSL's MD5 is not part of the repository: \<^verbatim>\<open>calculate_md5\<close> only calls
  \<^verbatim>\<open>MD5_Init\<close>, \<^verbatim>\<open>MD5_Update\<close> and \<^verbatim>\<open>MD5_Final\<close>. The three are parameters of the
  model, over any type of context.
\<close>

record 'ctx md5_lib =
  MD5_Init :: 'ctx
  MD5_Update :: "'ctx \<Rightarrow> byte list \<Rightarrow> 'ctx"
  MD5_Final :: "'ctx \<Rightarrow> byte list"

text \<open>\<^verbatim>\<open>snprintf(buf, 3, "%02x", digest[i])\<close>: two lowercase hexadecimal digits.\<close>

definition hex_digit :: "nat \<Rightarrow> char" where
  "hex_digit n = ''0123456789abcdef'' ! n"

definition snprintf_02x :: "byte \<Rightarrow> string" where
  "snprintf_02x b = [hex_digit (unat b div 16), hex_digit (unat b mod 16)]"

subsection \<open>calculate\_md5\<close>

text \<open>
  The loop \<^verbatim>\<open>while (file.read(buffer.data(), buffer.size()))\<close> feeds the whole buffer
  for every read that filled it, and stops at the first read that did not.
\<close>

function md5_read_loop ::
  "'ctx md5_lib \<Rightarrow> ifstream \<Rightarrow> byte list \<Rightarrow> 'ctx \<Rightarrow> ifstream \<times> byte list \<times> nat \<times> 'ctx" where
  "md5_read_loop L file buffer ctx =
     (case ifstream_read file buffer CHUNK_SIZE of
        (file', buffer', gcount) \<Rightarrow>
          if \<not> failbit file' then md5_read_loop L file' buffer' (MD5_Update L ctx buffer')
          else (file', buffer', gcount, ctx))"
  by pat_completeness auto
termination
  by (relation "measure (\<lambda>(L, f, buffer, ctx). length (unread f))")
     (auto simp: ifstream_read_def Let_def CHUNK_SIZE_def split: if_splits)

text \<open>
  The loop \<^verbatim>\<open>for (int i = 0; i < MD5_DIGEST_LENGTH; ++i)\<close> that appends the two
  characters of every digest byte to the result.
\<close>

definition render_digest :: "byte list \<Rightarrow> string" where
  "render_digest digest = concat (map (\<lambda>i. snprintf_02x (digest ! i)) [0..<MD5_DIGEST_LENGTH])"

text \<open>
  \<^verbatim>\<open>calculate_md5\<close> throws \<^verbatim>\<open>runtime_error\<close> when the file does not open. After the
  loop, \<^verbatim>\<open>MD5_Update\<close> is called once more with the first \<^verbatim>\<open>gcount()\<close> bytes of the
  buffer.
\<close>

definition calculate_md5 :: "'ctx md5_lib \<Rightarrow> path \<Rightarrow> world \<Rightarrow> (exn + string) \<times> world" where
  "calculate_md5 L file_path w =
     (case ifstream_open w file_path of
        (None, w') \<Rightarrow> (Inl runtime_error, w')
      | (Some file, w') \<Rightarrow>
          (case md5_read_loop L file (replicate CHUNK_SIZE 0) (MD5_Init L) of
             (file', buffer, gcount, ctx) \<Rightarrow>
               let ctx' = MD5_Update L ctx (take gcount buffer);
                   digest = MD5_Final L ctx'
               in (Inr (render_digest digest), w')))"

subsection \<open>The socket\<close>

text \<open>
  \<^verbatim>\<open>htonl\<close> followed by a write of the four bytes of the result: the value in network
  byte order, most significant byte first.
\<close>

definition htonl_bytes :: "uint32_t \<Rightarrow> byte list" where
  "htonl_bytes v = [ucast (drop_bit 24 v), ucast (drop_bit 16 v), ucast (drop_bit 8 v), ucast v]"

definition string_bytes :: "string \<Rightarrow> byte list" where
  "string_bytes s = map of_char s"

text \<open>
  \<^verbatim>\<open>boost::asio::write\<close> delivers the whole buffer or throws \<^verbatim>\<open>system_error\<close>; when
  it throws, the bytes the connection still took have been delivered.
\<close>

definition asio_write :: "socket \<Rightarrow> byte list \<Rightarrow> (exn + unit) \<times> socket" where
  "asio_write s bs =
     (case room s of
        None \<Rightarrow> (Inr (), s\<lparr>sent := sent s @ bs\<rparr>)
      | Some r \<Rightarrow>
          if length bs \<le> r then (Inr (), s\<lparr>sent := sent s @ bs, room := Some (r - length bs)\<rparr>)
          else (Inl system_error, s\<lparr>sent := sent s @ take r bs, room := Some 0\<rparr>))"

definition resolver_resolve :: "world \<Rightarrow> bool \<times> world" where
  "resolver_resolve w = (dns w (resolves w), emit (w\<lparr>resolves := resolves w + 1\<rparr>) Resolve)"

definition asio_connect :: "world \<Rightarrow> socket option \<times> world" where
  "asio_connect w =
     (let w' = emit (w\<lparr>connects := connects w + 1\<rparr>) Connect
      in (case net w (connects w) of
            Refused \<Rightarrow> (None, w')
          | Link r \<Rightarrow> (Some \<lparr>sent = [], room = r\<rparr>, w')))"

text \<open>The socket leaves its scope: what was delivered on it is kept in the world.\<close>

definition close_socket :: "world \<Rightarrow> socket \<Rightarrow> world" where
  "close_socket w s = w\<lparr>wires := wires w @ [sent s]\<rparr>"

subsection \<open>send\_file\<close>

text \<open>
  The payload loop \<^verbatim>\<open>while (total_bytes_sent < file_size)\<close>. A chunk is written only
  when the read returned bytes; a write that throws is caught inside the loop and makes
  \<^verbatim>\<open>send_file\<close> return false. Nothing in the loop itself bounds the number of rounds, so
  the model is a partial function: \<open>None\<close> is a loop that never ends.
\<close>

partial_function (option) send_loop ::
  "size_t \<Rightarrow> ifstream \<Rightarrow> byte list \<Rightarrow> size_t \<Rightarrow> socket \<Rightarrow> world \<Rightarrow> (bool \<times> socket \<times> world) option" where
  "send_loop file_size file buffer total_bytes_sent sock w =
     (if total_bytes_sent < file_size then
        (case ifstream_read file buffer CHUNK_SIZE of
           (file', buffer', bytes_read) \<Rightarrow>
             if bytes_read > 0 then
               (case asio_write sock (take bytes_read buffer') of
                  (Inr _, sock') \<Rightarrow>
                    let total' = total_bytes_sent + of_nat bytes_read;
                        w' = emit w (Progress (100 * total' div file_size))
                    in send_loop file_size file' buffer' total' sock' w'
                | (Inl e, sock') \<Rightarrow> Some (False, sock', emit w FailedToSendData))
             else send_loop file_size file' buffer' total_bytes_sent sock w)
      else Some (True, sock, w))"

declare send_loop.simps [code]

text \<open>
  \<^verbatim>\<open>send_file\<close>. \<^verbatim>\<open>size_t file_size = file.tellg()\<close> converts the answer, whatever it
  is, to \<^verbatim>\<open>size_t\<close>. The writes of the name, the size and the checksum are outside any
  \<^verbatim>\<open>try\<close>: their \<^verbatim>\<open>system_error\<close> leaves the function, as does the
  \<^verbatim>\<open>runtime_error\<close> of \<^verbatim>\<open>calculate_md5\<close>. The result is the exception or the returned
  boolean, with the socket and the world as the call left them.
\<close>

definition send_file ::
  "'ctx md5_lib \<Rightarrow> socket \<Rightarrow> path \<Rightarrow> world \<Rightarrow> ((exn + bool) \<times> socket \<times> world) option" where
  "send_file L sock file_path w =
     (case ifstream_open w file_path of
        (None, w1) \<Rightarrow> Some (Inr False, sock, emit w1 (FailedToOpen file_path))
      | (Some file, w1) \<Rightarrow>
          let file_size = (of_int (seekg_end_tellg file) :: size_t);
              file_name = file_path;
              name_length = (of_nat (length file_name) :: uint32_t)
          in (case asio_write sock (htonl_bytes name_length) of
               (Inl e, s1) \<Rightarrow> Some (Inl e, s1, w1)
             | (Inr _, s1) \<Rightarrow>
           (case asio_write s1 (take (unat name_length) (string_bytes file_name)) of
               (Inl e, s2) \<Rightarrow> Some (Inl e, s2, w1)
             | (Inr _, s2) \<Rightarrow>
           (case asio_write s2 (htonl_bytes (ucast file_size)) of
               (Inl e, s3) \<Rightarrow> Some (Inl e, s3, w1)
             | (Inr _, s3) \<Rightarrow>
           (case send_loop file_size file (replicate CHUNK_SIZE 0) 0 s3 w1 of
               None \<Rightarrow> None
             | Some (False, s4, w2) \<Rightarrow> Some (Inr False, s4, w2)
             | Some (True, s4, w2) \<Rightarrow>
           (case calculate_md5 L file_path (emit w2 Endl) of
               (Inl e, w3) \<Rightarrow> Some (Inl e, s4, w3)
             | (Inr md5_hash, w3) \<Rightarrow>
                 let w4 = emit w3 (CalculatedMD5 md5_hash);
                     hash_length = (of_nat (length md5_hash) :: uint32_t)
                 in (case asio_write s4 (htonl_bytes hash_length) of
                      (Inl e, s5) \<Rightarrow> Some (Inl e, s5, w4)
                    | (Inr _, s5) \<Rightarrow>
                  (case asio_write s5 (take (unat hash_length) (string_bytes md5_hash)) of
                      (Inl e, s6) \<Rightarrow> Some (Inl e, s6, w4)
                    | (Inr _, s6) \<Rightarrow>
                        Some (Inr True, s6, emit w4 (SentFile file_name file_size md5_hash))))))))))"

subsection \<open>manage\_connection\<close>

text \<open>
  The loop \<^verbatim>\<open>while (retry_count < MAX_RETRIES)\<close>. Only the \<^verbatim>\<open>catch\<close> of
  \<^verbatim>\<open>system_error\<close> increments \<^verbatim>\<open>retry_count\<close>, prints and sleeps; when
  \<^verbatim>\<open>send_file\<close> returns false the body ends and the loop condition is tested again
  with the counter as it was. Any other exception leaves the function.
\<close>

partial_function (option) retry_loop ::
  "'ctx md5_lib \<Rightarrow> path \<Rightarrow> int \<Rightarrow> world \<Rightarrow> ((exn + unit) \<times> world) option" where
  "retry_loop L file_path retry_count w =
     (if retry_count < MAX_RETRIES then
        (case asio_connect w of
           (None, w1) \<Rightarrow>
             retry_loop L file_path (retry_count + 1)
               (emit (emit w1 (ConnectionError (retry_count + 1))) (Sleep RETRY_INTERVAL))
         | (Some sock, w1) \<Rightarrow>
             (case send_file L sock file_path w1 of
                None \<Rightarrow> None
              | Some (Inr ok, sock', w2) \<Rightarrow>
                  if ok then Some (Inr (), close_socket w2 sock')
                  else retry_loop L file_path retry_count (close_socket w2 sock')
              | Some (Inl system_error, sock', w2) \<Rightarrow>
                  retry_loop L file_path (retry_count + 1)
                    (emit (emit (close_socket w2 sock') (ConnectionError (retry_count + 1)))
                       (Sleep RETRY_INTERVAL))
              | Some (Inl runtime_error, sock', w2) \<Rightarrow>
                  Some (Inl runtime_error, close_socket w2 sock')))
      else Some (Inr (), emit w FailedAfterRetries))"

declare retry_loop.simps [code]

text \<open>
  \<^verbatim>\<open>manage_connection\<close>: the address is resolved once, outside the \<^verbatim>\<open>try\<close>, so a
  resolver failure leaves the function as \<^verbatim>\<open>system_error\<close>. The server name and the
  port are the constants of \<^verbatim>\<open>main\<close>; the resolver's answer is the world's.
\<close>

definition manage_connection ::
  "'ctx md5_lib \<Rightarrow> path \<Rightarrow> world \<Rightarrow> ((exn + unit) \<times> world) option" where
  "manage_connection L file_path w =
     (case resolver_resolve w of
        (False, w1) \<Rightarrow> Some (Inl system_error, w1)
      | (True, w1) \<Rightarrow> retry_loop L file_path 0 w1)"

subsection \<open>main\<close>

text \<open>
  The directory iterator is given as the list of its entries, each with the answer of
  \<^verbatim>\<open>fs::is_regular_file\<close>. The \<^verbatim>\<open>for\<close> loop stops at the first exception.
\<close>

fun for_entries ::
  "'ctx md5_lib \<Rightarrow> (path \<times> bool) list \<Rightarrow> world \<Rightarrow> ((exn + unit) \<times> world) option" where
  "for_entries L [] w = Some (Inr (), w)"
| "for_entries L ((p, is_regular_file) # entries) w =
     (if is_regular_file then
        (case manage_connection L p (emit w Connecting) of
           None \<Rightarrow> None
         | Some (Inl e, w') \<Rightarrow> Some (Inl e, w')
         | Some (Inr _, w') \<Rightarrow> for_entries L entries w')
      else for_entries L entries w)"

text \<open>
  \<^verbatim>\<open>main\<close> catches every \<^verbatim>\<open>std::exception\<close>, prints it and returns 0 either way.
\<close>

definition main :: "'ctx md5_lib \<Rightarrow> (path \<times> bool) list \<Rightarrow> world \<Rightarrow> (int \<times> world) option" where
  "main L entries w =
     (case for_entries L entries w of
        None \<Rightarrow> None
      | Some (Inr _, w') \<Rightarrow> Some (0, emit w' AllProcessed)
      | Some (Inl e, w') \<Rightarrow> Some (0, emit w' (Error e)))"

section \<open>Notions used to state the properties\<close>

text \<open>The number a sequence of bytes denotes when read most significant byte first.\<close>

definition be_nat :: "byte list \<Rightarrow> nat" where
  "be_nat bs = foldl (\<lambda>a b. a * 256 + unat b) 0 bs"

text \<open>
  A socket can take \<open>k\<close> more bytes; and the socket after it has taken the bytes \<open>bs\<close>.
\<close>

definition can_take :: "socket \<Rightarrow> nat \<Rightarrow> bool" where
  "can_take s k = (case room s of None \<Rightarrow> True | Some r \<Rightarrow> k \<le> r)"

definition advance :: "socket \<Rightarrow> byte list \<Rightarrow> socket" where
  "advance s bs = s\<lparr>sent := sent s @ bs, room := map_option (\<lambda>r. r - length bs) (room s)\<rparr>"

text \<open>
  A file of \<open>n\<close> bytes is sent in \<open>rounds n\<close> chunk writes; after the \<open>k\<close>-th of them
  \<open>bytes_sent_after n k\<close> bytes are out.
\<close>

definition rounds :: "nat \<Rightarrow> nat" where
  "rounds n = (n + CHUNK_SIZE - 1) div CHUNK_SIZE"

definition bytes_sent_after :: "nat \<Rightarrow> nat \<Rightarrow> nat" where
  "bytes_sent_after n k = min (k * CHUNK_SIZE) n"

text \<open>The progress values in a trace, in order.\<close>

fun progress_of :: "event list \<Rightarrow> size_t list" where
  "progress_of [] = []"
| "progress_of (Progress v # es) = v # progress_of es"
| "progress_of (e # es) = progress_of es"

text \<open>
  The pieces \<^verbatim>\<open>calculate_md5\<close> feeds to the hash: the \<open>k\<close>-th block of
  \<open>CHUNK_SIZE\<close> bytes of the content, for every full block, then whatever is left
  (possibly nothing). The streaming hash of a content is the context after all pieces.
\<close>

definition piece :: "byte list \<Rightarrow> nat \<Rightarrow> byte list" where
  "piece c k = take CHUNK_SIZE (drop (k * CHUNK_SIZE) c)"

definition file_chunks :: "byte list \<Rightarrow> byte list list" where
  "file_chunks c = map (piece c) [0..<Suc (length c div CHUNK_SIZE)]"

definition streaming_hash :: "'ctx md5_lib \<Rightarrow> byte list \<Rightarrow> byte list" where
  "streaming_hash L c = MD5_Final L (foldl (MD5_Update L) (MD5_Init L) (file_chunks c))"

text \<open>
  Lowercase hexadecimal as the specification words it: two characters per byte, the
  high digit first, digits \<open>0\<close> to \<open>9\<close> and \<open>a\<close> to \<open>f\<close> by their ASCII codes.
\<close>

definition hexchar :: "nat \<Rightarrow> char" where
  "hexchar n = char_of (if n < 10 then 48 + n else 87 + n)"

definition lowercase_hex :: "byte list \<Rightarrow> string" where
  "lowercase_hex d = concat (map (\<lambda>b. [hexchar (unat b div 16), hexchar (unat b mod 16)]) d)"

text \<open>The bytes of one complete transfer of a file named \<open>p\<close> with content \<open>c\<close> and checksum \<open>h\<close>.\<close>

definition frame :: "path \<Rightarrow> byte list \<Rightarrow> string \<Rightarrow> byte list" where
  "frame p c h =
     htonl_bytes (of_nat (length p)) @ string_bytes p @
     htonl_bytes (of_nat (length c)) @ c @
     htonl_bytes (of_nat (length h)) @ string_bytes h"

text \<open>The progress lines printed while a file of \<open>n\<close> bytes goes out, one per chunk write.\<close>

definition progress_events :: "nat \<Rightarrow> event list" where
  "progress_events n =
     map (\<lambda>k. Progress (100 * of_nat (bytes_sent_after n k) div of_nat n)) [1..<Suc (rounds n)]"

subsection \<open>Concrete inputs\<close>

text \<open>
  Two stand-ins for the MD5 library, to run the model on concrete inputs. In both the
  context is a byte, to which the bytes fed are added. \<open>sum_lib\<close> starts at 0 and its
  digest repeats the context 16 times; \<open>ramp_lib\<close> starts at \<open>0xab\<close> and its \<open>i\<close>-th
  digest byte is the context plus \<open>0x11 * i\<close>, so that the digest of no bytes at all is
  \<open>ab bc cd de ef 00 11 ... aa\<close>.
\<close>

definition sum_lib :: "byte md5_lib" where
  "sum_lib = \<lparr>MD5_Init = 0, MD5_Update = (\<lambda>ctx bs. ctx + sum_list bs),
              MD5_Final = (\<lambda>ctx. replicate 16 ctx)\<rparr>"

definition ramp_lib :: "byte md5_lib" where
  "ramp_lib = \<lparr>MD5_Init = 171, MD5_Update = (\<lambda>ctx bs. ctx + sum_list bs),
               MD5_Final = (\<lambda>ctx. map (\<lambda>i. ctx + 17 * of_nat i) [0..<16])\<rparr>"

text \<open>
  A world that has made no call yet and in which no file changes while it is open:
  \<^verbatim>\<open>tellg()\<close> at the end gives the number of bytes the reads will yield.
\<close>

definition fresh_world ::
  "(nat \<Rightarrow> bool) \<Rightarrow> (nat \<Rightarrow> link) \<Rightarrow> (nat \<Rightarrow> path \<Rightarrow> byte list option) \<Rightarrow> world" where
  "fresh_world r n d =
     \<lparr>dns = r, net = n, disk = d,
      tell = (\<lambda>k p. case d k p of None \<Rightarrow> - 1 | Some c \<Rightarrow> int (length c)),
      resolves = 0, connects = 0, opens = 0, trace = [], wires = []\<rparr>"

section \<open>Basic facts\<close>

lemma CHUNK_SIZE_pos: "0 < CHUNK_SIZE"
  by (simp add: CHUNK_SIZE_def)

lemma take_length_append: "take (length xs) (xs @ ys) = xs"
  by simp

subsection \<open>Network byte order\<close>

lemma base256:
  fixes n :: nat
  assumes "n < 4294967296"
  shows "((n div 16777216 mod 256 * 256 + n div 65536 mod 256) * 256 + n div 256 mod 256) * 256
           + n mod 256 = n"
proof -
  define a where "a = n div 256"
  define b where "b = a div 256"
  define c where "c = b div 256"
  define r0 where "r0 = n mod 256"
  define r1 where "r1 = a mod 256"
  define r2 where "r2 = b mod 256"
  have n: "n = 256 * a + r0" unfolding a_def r0_def by simp
  have a: "a = 256 * b + r1" unfolding b_def r1_def by simp
  have b: "b = 256 * c + r2" unfolding c_def r2_def by simp
  have d16: "n div 65536 = b" unfolding b_def a_def by (simp add: div_mult2_eq [symmetric])
  have d24: "n div 16777216 = c" unfolding c_def b_def a_def by (simp add: div_mult2_eq [symmetric])
  have c: "c mod 256 = c"
    using assms unfolding d24 [symmetric] by (simp add: less_mult_imp_div_less)
  have "((c * 256 + r2) * 256 + r1) * 256 + r0 = n"
    by (subst n, subst a, subst b) (simp add: algebra_simps)
  then show ?thesis
    unfolding d16 d24 c a_def [symmetric] r0_def r1_def r2_def .
qed

lemma be_nat_htonl: "be_nat (htonl_bytes v) = unat v"
proof -
  have "unat v < 2 ^ 32" using unsigned_less [of v, where 'a = nat] by simp
  then have lt: "unat v < 4294967296" by simp
  have b3: "unat (ucast (drop_bit 24 v) :: byte) = unat v div 16777216 mod 256"
    by (simp add: unsigned_ucast_eq unat_drop_bit_eq drop_bit_eq_div take_bit_eq_mod unat_div_distrib)
  have b2: "unat (ucast (drop_bit 16 v) :: byte) = unat v div 65536 mod 256"
    by (simp add: unsigned_ucast_eq unat_drop_bit_eq drop_bit_eq_div take_bit_eq_mod unat_div_distrib)
  have b1: "unat (ucast (drop_bit 8 v) :: byte) = unat v div 256 mod 256"
    by (simp add: unsigned_ucast_eq unat_drop_bit_eq drop_bit_eq_div take_bit_eq_mod unat_div_distrib)
  have b0: "unat (ucast v :: byte) = unat v mod 256"
    by (simp add: unsigned_ucast_eq take_bit_eq_mod)
  show ?thesis
    unfolding be_nat_def htonl_bytes_def foldl_Cons foldl_Nil b3 b2 b1 b0 mult_zero_left add_0
    using lt by (rule base256)
qed

lemma length_htonl: "length (htonl_bytes v) = 4"
  by (simp add: htonl_bytes_def)

lemma length_string_bytes: "length (string_bytes s) = length s"
  by (simp add: string_bytes_def)

subsection \<open>Writing to a socket\<close>

lemma asio_write_ok: "can_take s (length bs) \<Longrightarrow> asio_write s bs = (Inr (), advance s bs)"
  by (auto simp: can_take_def asio_write_def advance_def split: option.splits)

lemma asio_write_fail:
  "\<not> can_take s (length bs) \<Longrightarrow> \<exists>s'. asio_write s bs = (Inl system_error, s')"
  by (auto simp: can_take_def asio_write_def split: option.splits)

lemma asio_write_fail_sent:
  "\<not> can_take s (length bs) \<Longrightarrow>
   \<exists>s' k. asio_write s bs = (Inl system_error, s') \<and> sent s' = sent s @ take k bs \<and> k < length bs"
  by (auto simp: can_take_def asio_write_def split: option.splits)

lemma can_take_advance: "can_take s (length a + m) \<Longrightarrow> can_take (advance s a) m"
  by (auto simp: can_take_def advance_def split: option.splits)

lemma can_take_advance_iff:
  "can_take s (length a) \<Longrightarrow> can_take (advance s a) m \<longleftrightarrow> can_take s (length a + m)"
  by (auto simp: can_take_def advance_def split: option.splits)

lemma can_take_less: "can_take s k \<Longrightarrow> j \<le> k \<Longrightarrow> can_take s j"
  by (auto simp: can_take_def split: option.splits)

lemma can_take_0: "can_take s 0"
  by (auto simp: can_take_def split: option.splits)

lemma advance_advance: "advance (advance s a) b = advance s (a @ b)"
  by (cases "room s") (simp_all add: advance_def)

lemma advance_Nil: "advance s [] = s"
  by (cases "room s") (simp_all add: advance_def)

lemma sent_advance: "sent (advance s bs) = sent s @ bs"
  by (simp add: advance_def)

subsection \<open>Hexadecimal\<close>

lemma hex_digit_hexchar:
  assumes "d < 16"
  shows "hex_digit d = hexchar d"
proof -
  from assms have "d \<in> {15, 14, 13, 12, 11, 10} \<or> d \<in> {9, 8, 7, 6, 5, 4, 3, 2, 1, 0}"
    unfolding insert_iff empty_iff by arith
  then have "(of_char (hex_digit d) :: nat) = of_char (hexchar d)"
    by (auto simp: hex_digit_def hexchar_def)
  then show ?thesis by (simp only: of_char_eq_iff)
qed

lemma snprintf_02x_hexchar: "snprintf_02x b = [hexchar (unat b div 16), hexchar (unat b mod 16)]"
proof -
  have "unat b < 256" using unsigned_less [of b, where 'a = nat] by simp
  then have "unat b div 16 < 16" by simp
  then show ?thesis by (simp add: snprintf_02x_def hex_digit_hexchar)
qed

lemma render_digest_lowercase_hex:
  assumes "length d = MD5_DIGEST_LENGTH"
  shows "render_digest d = lowercase_hex d"
proof -
  have "map (\<lambda>i. snprintf_02x (d ! i)) [0..<length d] = map snprintf_02x (map ((!) d) [0..<length d])"
    by (simp only: map_map comp_def)
  also have "\<dots> = map snprintf_02x d" by (simp only: map_nth)
  finally have m: "map (\<lambda>i. snprintf_02x (d ! i)) [0..<MD5_DIGEST_LENGTH] = map snprintf_02x d"
    unfolding assms .
  have e: "snprintf_02x = (\<lambda>b. [hexchar (unat b div 16), hexchar (unat b mod 16)])"
    by (rule ext) (rule snprintf_02x_hexchar)
  show ?thesis
    unfolding render_digest_def by (simp only: m) (simp only: lowercase_hex_def e)
qed

lemma length_lowercase_hex: "length (lowercase_hex d) = 2 * length d"
  by (induction d) (simp_all add: lowercase_hex_def)

lemma length_render_digest: "length (render_digest d) = 32"
proof -
  have "length (render_digest d) = sum_list (map (\<lambda>i. Suc (Suc 0)) [0..<MD5_DIGEST_LENGTH])"
    unfolding render_digest_def length_concat map_map comp_def snprintf_02x_def by simp
  also have "\<dots> = 32" by (simp add: sum_list_triv MD5_DIGEST_LENGTH_def)
  finally show ?thesis .
qed

subsection \<open>The payload loop\<close>

lemma rounds_le: "rounds n \<le> j \<longleftrightarrow> n \<le> j * CHUNK_SIZE"
proof -
  have "rounds n \<le> j \<longleftrightarrow> rounds n < Suc j" by auto
  also have "\<dots> \<longleftrightarrow> n + CHUNK_SIZE - 1 < Suc j * CHUNK_SIZE"
    unfolding rounds_def by (rule div_less_iff_less_mult) (simp add: CHUNK_SIZE_def)
  also have "\<dots> \<longleftrightarrow> n \<le> j * CHUNK_SIZE"
    by (auto simp: CHUNK_SIZE_def)
  finally show ?thesis .
qed


lemma size_t_less: "a < b \<Longrightarrow> b < 2 ^ 64 \<Longrightarrow> (of_nat a :: size_t) < of_nat b"
  by (simp add: word_of_nat_less_iff take_bit_nat_eq_self)

lemma size_t_plus: "(of_nat a :: size_t) + of_nat b = of_nat (a + b)"
  by simp

lemma send_loop_ok:
  assumes n: "length c = n" "n < 2 ^ 64"
  shows "unread f = drop (j * CHUNK_SIZE) c \<Longrightarrow> (j * CHUNK_SIZE < n \<longrightarrow> \<not> failbit f)
    \<Longrightarrow> can_take s (n - j * CHUNK_SIZE)
    \<Longrightarrow> send_loop (of_nat n) f buffer (of_nat (bytes_sent_after n j)) s w
        = Some (True, advance s (drop (j * CHUNK_SIZE) c),
            w\<lparr>trace := trace w @ map (\<lambda>k. Progress (100 * of_nat (bytes_sent_after n k) div of_nat n))
                 [Suc j..<Suc (rounds n)]\<rparr>)"
proof (induction "rounds n - j" arbitrary: j f buffer s w)
  case 0
  then have le: "n \<le> j * CHUNK_SIZE" by (simp add: rounds_le)
  then have "bytes_sent_after n j = n" by (simp add: bytes_sent_after_def)
  moreover have "[Suc j..<Suc (rounds n)] = []" using 0 by simp
  moreover have "drop (j * CHUNK_SIZE) c = []" using le n by simp
  ultimately show ?case
    by (subst send_loop.simps) (simp add: advance_Nil)
next
  case (Suc d)
  from Suc.hyps(2) have jr: "j < rounds n" by simp
  have lt: "j * CHUNK_SIZE < n" using jr rounds_le [of n j] by auto
  have bs: "bytes_sent_after n j = j * CHUNK_SIZE" using lt by (simp add: bytes_sent_after_def)
  have cmp: "(of_nat (j * CHUNK_SIZE) :: size_t) < of_nat n"
    using lt n(2) by (rule size_t_less)
  let ?got = "take CHUNK_SIZE (drop (j * CHUNK_SIZE) c)"
  let ?file' = "f\<lparr>unread := drop CHUNK_SIZE (unread f), failbit := length ?got < CHUNK_SIZE\<rparr>"
  let ?buffer' = "?got @ drop (length ?got) buffer"
  have rd: "ifstream_read f buffer CHUNK_SIZE = (?file', ?buffer', length ?got)"
    using Suc.prems lt by (simp add: ifstream_read_def Let_def)
  have len: "length ?got = min CHUNK_SIZE (n - j * CHUNK_SIZE)" using n by simp
  then have pos: "0 < length ?got" using lt by (simp add: CHUNK_SIZE_def)
  have tk: "take (length ?got) ?buffer' = ?got" by (rule take_length_append)
  have ct: "can_take s (length ?got)"
    using Suc.prems(3) len by (auto intro: can_take_less)
  have wr: "asio_write s ?got = (Inr (), advance s ?got)"
    using ct by (rule asio_write_ok)
  have tot: "(of_nat (j * CHUNK_SIZE) :: size_t) + of_nat (length ?got) = of_nat (bytes_sent_after n (Suc j))"
  proof -
    have "j * CHUNK_SIZE + length ?got = bytes_sent_after n (Suc j)"
      unfolding len bytes_sent_after_def using lt by (auto simp: min_def)
    then show ?thesis unfolding size_t_plus by (rule arg_cong)
  qed
  have d: "d = rounds n - Suc j" using Suc.hyps(2) by simp
  have u': "unread ?file' = drop (Suc j * CHUNK_SIZE) c"
    using Suc.prems(1) by (simp add: add.commute)
  have f': "Suc j * CHUNK_SIZE < n \<longrightarrow> \<not> failbit ?file'"
    using len by auto
  have ct': "can_take (advance s ?got) (n - Suc j * CHUNK_SIZE)"
    apply (rule can_take_advance)
    apply (rule can_take_less [OF Suc.prems(3)])
    using len by auto
  note IH = Suc.hyps(1) [OF d u' f' ct', of ?buffer']
  have app: "?got @ drop (Suc j * CHUNK_SIZE) c = drop (j * CHUNK_SIZE) c"
    by (metis append_take_drop_id drop_drop mult_Suc)
  have upt: "[Suc j..<Suc (rounds n)] = Suc j # [Suc (Suc j)..<Suc (rounds n)]"
    using jr by (simp add: upt_conv_Cons)
  show ?case
    apply (subst send_loop.simps)
    apply (simp only: bs cmp if_True rd prod.case pos tk wr sum.case Let_def tot)
    apply (simp only: IH advance_advance app upt)
    apply (simp add: emit_def)
    done
qed

subsection \<open>The checksum loop\<close>

lemma length_piece_full: "k < length c div CHUNK_SIZE \<Longrightarrow> length (piece c k) = CHUNK_SIZE"
proof -
  assume "k < length c div CHUNK_SIZE"
  then have "Suc k \<le> length c div CHUNK_SIZE" by simp
  then have "Suc k * CHUNK_SIZE \<le> length c"
    using CHUNK_SIZE_pos by (simp add: less_eq_div_iff_mult_less_eq)
  then show ?thesis by (simp add: piece_def)
qed

lemma length_piece_last: "length (piece c (length c div CHUNK_SIZE)) = length c mod CHUNK_SIZE"
proof -
  have "length c - length c div CHUNK_SIZE * CHUNK_SIZE = length c mod CHUNK_SIZE"
    by (simp add: minus_div_mult_eq_mod)
  moreover have "length c mod CHUNK_SIZE < CHUNK_SIZE" using CHUNK_SIZE_pos by simp
  ultimately show ?thesis by (simp add: piece_def)
qed

lemma md5_read_loop_chunks:
  assumes "unread f = drop (j * CHUNK_SIZE) c" "\<not> failbit f" "j \<le> length c div CHUNK_SIZE"
    "length buffer = CHUNK_SIZE"
  shows "\<exists>f' buffer'. md5_read_loop L f buffer ctx
      = (f', buffer', length c mod CHUNK_SIZE,
         foldl (MD5_Update L) ctx (map (piece c) [j..<length c div CHUNK_SIZE]))
      \<and> take (length c mod CHUNK_SIZE) buffer' = piece c (length c div CHUNK_SIZE)"
  using assms
proof (induction "length c div CHUNK_SIZE - j" arbitrary: j f buffer ctx)
  case 0
  then have j: "j = length c div CHUNK_SIZE" by simp
  have len: "length (piece c j) = length c mod CHUNK_SIZE"
    unfolding j by (rule length_piece_last)
  then have short: "length (piece c j) < CHUNK_SIZE" using CHUNK_SIZE_pos by simp
  let ?buffer' = "piece c j @ drop (length (piece c j)) buffer"
  have rd: "ifstream_read f buffer CHUNK_SIZE
      = (f\<lparr>unread := drop CHUNK_SIZE (unread f), failbit := True\<rparr>, ?buffer', length (piece c j))"
    using 0 short by (simp add: ifstream_read_def Let_def piece_def)
  have tk: "take (length (piece c j)) ?buffer' = piece c j" by (rule take_length_append)
  show ?case
    apply (subst md5_read_loop.simps)
    apply (simp only: rd prod.case ifstream.simps not_True_eq_False if_False)
    by (simp add: j length_piece_last)
next
  case (Suc d)
  then have lt: "j < length c div CHUNK_SIZE" by simp
  then have len: "length (piece c j) = CHUNK_SIZE" by (rule length_piece_full)
  let ?f' = "f\<lparr>unread := drop CHUNK_SIZE (unread f), failbit := False\<rparr>"
  have rd: "ifstream_read f buffer CHUNK_SIZE = (?f', piece c j, CHUNK_SIZE)"
    using Suc.prems len by (simp add: ifstream_read_def Let_def piece_def)
  have d: "d = length c div CHUNK_SIZE - Suc j" using Suc.hyps(2) by simp
  have u: "unread ?f' = drop (Suc j * CHUNK_SIZE) c"
    using Suc.prems(1) by (simp add: add.commute)
  have nf: "\<not> failbit ?f'" by simp
  have le: "Suc j \<le> length c div CHUNK_SIZE" using lt by simp
  note IH = Suc.hyps(1) [OF d u nf le len, of "MD5_Update L ctx (piece c j)"]
  have upt: "[j..<length c div CHUNK_SIZE] = j # [Suc j..<length c div CHUNK_SIZE]"
    using lt by (simp add: upt_conv_Cons)
  show ?case
    apply (subst md5_read_loop.simps)
    apply (simp only: rd prod.case ifstream.simps not_False_eq_True if_True upt list.map foldl_Cons)
    using IH by simp
qed

lemma calculate_md5_ok:
  assumes "disk w (opens w) p = Some c"
  shows "calculate_md5 L p w = (Inr (render_digest (streaming_hash L c)), w\<lparr>opens := opens w + 1\<rparr>)"
proof -
  let ?f = "\<lparr>unread = c, failbit = False, end_pos = tell w (opens w) p\<rparr>"
  let ?q = "length c div CHUNK_SIZE"
  have op: "ifstream_open w p = (Some ?f, w\<lparr>opens := opens w + 1\<rparr>)"
    using assms by (simp add: ifstream_open_def)
  have "\<exists>f' buffer'. md5_read_loop L ?f (replicate CHUNK_SIZE 0) (MD5_Init L)
      = (f', buffer', length c mod CHUNK_SIZE,
         foldl (MD5_Update L) (MD5_Init L) (map (piece c) [0..<?q]))
      \<and> take (length c mod CHUNK_SIZE) buffer' = piece c ?q"
    by (rule md5_read_loop_chunks) simp_all
  then obtain f' buffer' where
    lp: "md5_read_loop L ?f (replicate CHUNK_SIZE 0) (MD5_Init L)
      = (f', buffer', length c mod CHUNK_SIZE,
         foldl (MD5_Update L) (MD5_Init L) (map (piece c) [0..<?q]))"
    and tk: "take (length c mod CHUNK_SIZE) buffer' = piece c ?q"
    by blast
  have fc: "foldl (MD5_Update L) (MD5_Init L) (file_chunks c)
      = MD5_Update L (foldl (MD5_Update L) (MD5_Init L) (map (piece c) [0..<?q])) (piece c ?q)"
    by (simp add: file_chunks_def)
  show ?thesis
    unfolding calculate_md5_def op prod.case option.case lp Let_def tk streaming_hash_def fc ..
qed

lemma calculate_md5_fail:
  assumes "disk w (opens w) p = None"
  shows "calculate_md5 L p w = (Inl runtime_error, w\<lparr>opens := opens w + 1\<rparr>)"
  using assms by (simp add: calculate_md5_def ifstream_open_def)

subsection \<open>A write fails in the payload loop\<close>

lemma send_loop_fail:
  assumes n: "length c = n" "n < 2 ^ 64"
  shows "unread f = drop (j * CHUNK_SIZE) c \<Longrightarrow> (j * CHUNK_SIZE < n \<longrightarrow> \<not> failbit f)
    \<Longrightarrow> \<not> can_take s (n - j * CHUNK_SIZE)
    \<Longrightarrow> \<exists>s' t. send_loop (of_nat n) f buffer (of_nat (bytes_sent_after n j)) s w
        = Some (False, s', w\<lparr>trace := trace w @ t\<rparr>)"
proof (induction "rounds n - j" arbitrary: j f buffer s w)
  case 0
  then have le: "n \<le> j * CHUNK_SIZE" by (simp add: rounds_le)
  then have "n - j * CHUNK_SIZE = 0" by simp
  with 0 show ?case by (simp add: can_take_0)
next
  case (Suc d)
  from Suc.hyps(2) have jr: "j < rounds n" by simp
  have lt: "j * CHUNK_SIZE < n" using jr rounds_le [of n j] by auto
  have bs: "bytes_sent_after n j = j * CHUNK_SIZE" using lt by (simp add: bytes_sent_after_def)
  have cmp: "(of_nat (j * CHUNK_SIZE) :: size_t) < of_nat n"
    using lt n(2) by (rule size_t_less)
  let ?got = "take CHUNK_SIZE (drop (j * CHUNK_SIZE) c)"
  let ?file' = "f\<lparr>unread := drop CHUNK_SIZE (unread f), failbit := length ?got < CHUNK_SIZE\<rparr>"
  let ?buffer' = "?got @ drop (length ?got) buffer"
  have rd: "ifstream_read f buffer CHUNK_SIZE = (?file', ?buffer', length ?got)"
    using Suc.prems lt by (simp add: ifstream_read_def Let_def)
  have len: "length ?got = min CHUNK_SIZE (n - j * CHUNK_SIZE)" using n by simp
  then have pos: "0 < length ?got" using lt by (simp add: CHUNK_SIZE_def)
  have tk: "take (length ?got) ?buffer' = ?got" by (rule take_length_append)
  show ?case
  proof (cases "can_take s (length ?got)")
    case False
    then obtain s' where wr: "asio_write s ?got = (Inl system_error, s')"
      using asio_write_fail by blast
    have "send_loop (of_nat n) f buffer (of_nat (bytes_sent_after n j)) s w
        = Some (False, s', w\<lparr>trace := trace w @ [FailedToSendData]\<rparr>)"
      apply (subst send_loop.simps)
      apply (simp only: bs cmp if_True rd prod.case pos tk wr sum.case)
      apply (simp add: emit_def)
      done
    then show ?thesis by blast
  next
    case True
    then have wr: "asio_write s ?got = (Inr (), advance s ?got)"
      by (rule asio_write_ok)
    have tot: "(of_nat (j * CHUNK_SIZE) :: size_t) + of_nat (length ?got) = of_nat (bytes_sent_after n (Suc j))"
    proof -
      have "j * CHUNK_SIZE + length ?got = bytes_sent_after n (Suc j)"
        unfolding len bytes_sent_after_def using lt by (auto simp: min_def)
      then show ?thesis unfolding size_t_plus by (rule arg_cong)
    qed
    have d: "d = rounds n - Suc j" using Suc.hyps(2) by simp
    have u': "unread ?file' = drop (Suc j * CHUNK_SIZE) c"
      using Suc.prems(1) by (simp add: add.commute)
    have f': "Suc j * CHUNK_SIZE < n \<longrightarrow> \<not> failbit ?file'"
      using len by auto
    have split: "n - j * CHUNK_SIZE = length ?got + (n - Suc j * CHUNK_SIZE)"
      using len lt by (auto simp: min_def)
    have ct': "\<not> can_take (advance s ?got) (n - Suc j * CHUNK_SIZE)"
      using Suc.prems(3) True unfolding split by (simp add: can_take_advance_iff)
    let ?w' = "emit w (Progress (100 * of_nat (bytes_sent_after n (Suc j)) div of_nat n))"
    from Suc.hyps(1) [OF d u' f' ct', of ?buffer' ?w']
    obtain s' t where IH: "send_loop (of_nat n) ?file' ?buffer' (of_nat (bytes_sent_after n (Suc j)))
        (advance s ?got) ?w' = Some (False, s', ?w'\<lparr>trace := trace ?w' @ t\<rparr>)"
      by blast
    have "send_loop (of_nat n) f buffer (of_nat (bytes_sent_after n j)) s w
        = Some (False, s', w\<lparr>trace := trace w @ (Progress (100 * of_nat (bytes_sent_after n (Suc j)) div of_nat n) # t)\<rparr>)"
      apply (subst send_loop.simps)
      apply (simp only: bs cmp if_True rd prod.case pos tk wr sum.case Let_def tot)
      apply (simp only: IH)
      apply (simp add: emit_def)
      done
    then show ?thesis by blast
  qed
qed

subsection \<open>A transfer in which every write succeeds\<close>

lemma write_after:
  "can_take sock (length pre + length bs) \<Longrightarrow>
   asio_write (advance sock pre) bs = (Inr (), advance sock (pre @ bs))"
  using asio_write_ok [of "advance sock pre" bs] can_take_advance [of sock pre "length bs"]
  by (simp add: advance_advance)

lemma write_after_fail:
  "can_take sock (length pre) \<Longrightarrow> \<not> can_take sock (length pre + length bs) \<Longrightarrow>
   \<exists>s'. asio_write (advance sock pre) bs = (Inl system_error, s')"
  using asio_write_fail [of "advance sock pre" bs] can_take_advance_iff [of sock pre "length bs"]
  by simp

lemma write_after_fail_sent:
  "can_take sock (length pre) \<Longrightarrow> \<not> can_take sock (length pre + length bs) \<Longrightarrow>
   \<exists>s' k. asio_write (advance sock pre) bs = (Inl system_error, s')
     \<and> sent s' = sent sock @ pre @ take k bs \<and> k < length bs"
  using asio_write_fail_sent [of "advance sock pre" bs] can_take_advance_iff [of sock pre "length bs"]
  by (simp add: sent_advance)

lemma unat_uint32_of_nat: "k < 2 ^ 32 \<Longrightarrow> unat (of_nat k :: uint32_t) = k"
  by (simp add: unat_of_nat)

lemma ucast_size_t_uint32: "(ucast (of_nat k :: size_t) :: uint32_t) = of_nat k"
  by (rule bit_word_eqI) (auto simp: bit_simps)

lemma send_file_ok:
  assumes o1: "disk w (opens w) p = Some c"
    and o2: "disk w (opens w + 1) p = Some c2"
    and t1: "tell w (opens w) p = int (length c)"
    and n: "length c < 2 ^ 64"
    and pl: "length p < 2 ^ 32"
    and ct: "can_take sock (44 + length p + length c)"
  shows "send_file L sock p w =
    Some (Inr True, advance sock (frame p c (render_digest (streaming_hash L c2))),
      w\<lparr>opens := opens w + 2,
        trace := trace w @ progress_events (length c) @
          [Endl, CalculatedMD5 (render_digest (streaming_hash L c2)),
           SentFile p (of_nat (length c)) (render_digest (streaming_hash L c2))]\<rparr>)"
proof -
  let ?h = "render_digest (streaming_hash L c2)"
  let ?A = "htonl_bytes (of_nat (length p))"
  let ?B = "string_bytes p"
  let ?C = "htonl_bytes (of_nat (length c))"
  let ?D = "htonl_bytes (of_nat (length ?h))"
  let ?E = "string_bytes ?h"
  let ?f = "\<lparr>unread = c, failbit = False, end_pos = int (length c)\<rparr>"
  let ?w1 = "w\<lparr>opens := opens w + 1\<rparr>"
  have op: "ifstream_open w p = (Some ?f, ?w1)"
    using o1 t1 by (simp add: ifstream_open_def)
  have fs: "(of_int (seekg_end_tellg ?f) :: size_t) = of_nat (length c)"
    by (simp add: seekg_end_tellg_def)
  have w1: "asio_write sock ?A = (Inr (), advance sock ?A)"
    by (rule asio_write_ok) (rule can_take_less [OF ct], simp add: length_htonl)
  have w2: "asio_write (advance sock ?A) ?B = (Inr (), advance sock (?A @ ?B))"
    by (rule write_after) (rule can_take_less [OF ct], simp add: length_htonl length_string_bytes)
  have w3: "asio_write (advance sock (?A @ ?B)) ?C = (Inr (), advance sock (?A @ ?B @ ?C))"
    using write_after [of sock "?A @ ?B" ?C] can_take_less [OF ct, of "length (?A @ ?B) + length ?C"]
    by (simp add: length_htonl length_string_bytes)
  have ct3: "can_take (advance sock (?A @ ?B @ ?C)) (length c - 0 * CHUNK_SIZE)"
    using can_take_advance [of sock "?A @ ?B @ ?C" "length c"]
      can_take_less [OF ct, of "length (?A @ ?B @ ?C) + length c"]
    by (simp add: length_htonl length_string_bytes)
  have lp: "send_loop (of_nat (length c)) ?f (replicate CHUNK_SIZE 0) 0 (advance sock (?A @ ?B @ ?C)) ?w1
      = Some (True, advance sock (?A @ ?B @ ?C @ c), ?w1\<lparr>trace := trace ?w1 @ progress_events (length c)\<rparr>)"
    using send_loop_ok [OF refl n, of ?f 0 "advance sock (?A @ ?B @ ?C)" "replicate CHUNK_SIZE 0" ?w1] ct3
    by (simp add: bytes_sent_after_def advance_advance progress_events_def)
  let ?w2 = "emit (?w1\<lparr>trace := trace ?w1 @ progress_events (length c)\<rparr>) Endl"
  have md: "calculate_md5 L p ?w2 = (Inr ?h, ?w2\<lparr>opens := opens ?w2 + 1\<rparr>)"
    using o2 by (intro calculate_md5_ok) (simp add: emit_def)
  have hl: "length ?h = 32" by (rule length_render_digest)
  have w4: "asio_write (advance sock (?A @ ?B @ ?C @ c)) ?D = (Inr (), advance sock (?A @ ?B @ ?C @ c @ ?D))"
    using write_after [of sock "?A @ ?B @ ?C @ c" ?D]
      can_take_less [OF ct, of "length (?A @ ?B @ ?C @ c) + length ?D"]
    by (simp add: length_htonl length_string_bytes)
  have w5: "asio_write (advance sock (?A @ ?B @ ?C @ c @ ?D)) ?E = (Inr (), advance sock (?A @ ?B @ ?C @ c @ ?D @ ?E))"
    using write_after [of sock "?A @ ?B @ ?C @ c @ ?D" ?E]
      can_take_less [OF ct, of "length (?A @ ?B @ ?C @ c @ ?D) + length ?E"]
    by (simp add: length_htonl length_string_bytes hl)
  have tkB: "take (unat (of_nat (length p) :: uint32_t)) ?B = ?B"
    using pl by (simp add: unat_uint32_of_nat length_string_bytes)
  have tkE: "take (unat (of_nat (length ?h) :: uint32_t)) ?E = ?E"
    by (simp add: hl length_string_bytes)
  show ?thesis
    unfolding send_file_def op prod.case option.case Let_def fs
    apply (simp only: w1 prod.case sum.case tkB w2 ucast_size_t_uint32 w3 lp option.case bool.case if_True md
        tkE w4 w5)
    apply (simp add: emit_def frame_def)
    done
qed

subsection \<open>A transfer in which a write or the second open fails\<close>

lemma send_file_fail_early:
  assumes o1: "disk w (opens w) p = Some c"
    and t1: "tell w (opens w) p = int (length c)"
    and n: "length c < 2 ^ 64"
    and pl: "length p < 2 ^ 32"
    and nct: "\<not> can_take sock (8 + length p + length c)"
  shows "\<exists>r s' t. send_file L sock p w
      = Some (r, s', w\<lparr>opens := opens w + 1, trace := trace w @ t\<rparr>)
    \<and> (r = Inl system_error \<or> r = Inr False)"
proof -
  let ?h = "render_digest (streaming_hash L c2)"
  let ?A = "htonl_bytes (of_nat (length p))"
  let ?B = "string_bytes p"
  let ?C = "htonl_bytes (of_nat (length c))"
  let ?D = "htonl_bytes (of_nat (length ?h))"
  let ?E = "string_bytes ?h"
  let ?f = "\<lparr>unread = c, failbit = False, end_pos = int (length c)\<rparr>"
  let ?w1 = "w\<lparr>opens := opens w + 1\<rparr>"
  let ?w2 = "emit (?w1\<lparr>trace := trace ?w1 @ progress_events (length c)\<rparr>) Endl"
  have op: "ifstream_open w p = (Some ?f, ?w1)"
    using o1 t1 by (simp add: ifstream_open_def)
  have fs: "(of_int (seekg_end_tellg ?f) :: size_t) = of_nat (length c)"
    by (simp add: seekg_end_tellg_def)
  have hl: "length ?h = 32" by (rule length_render_digest)
  have tkB: "take (unat (of_nat (length p) :: uint32_t)) ?B = ?B"
    using pl by (simp add: unat_uint32_of_nat length_string_bytes)
  have tkE: "take (unat (of_nat (length ?h) :: uint32_t)) ?E = ?E"
    by (simp add: hl length_string_bytes)
  have w1: "asio_write sock ?A = (Inr (), advance sock ?A)" if "can_take sock 4"
    using that by (intro asio_write_ok) (simp add: length_htonl)
  have w2: "asio_write (advance sock ?A) ?B = (Inr (), advance sock (?A @ ?B))"
    if "can_take sock (4 + length p)"
    using that by (intro write_after) (simp add: length_htonl length_string_bytes add.assoc)
  have w3: "asio_write (advance sock (?A @ ?B)) ?C = (Inr (), advance sock (?A @ ?B @ ?C))"
    if "can_take sock (8 + length p)"
    using that write_after [of sock "?A @ ?B" ?C]
    by (simp add: length_htonl length_string_bytes add.assoc)
  have lp: "send_loop (of_nat (length c)) ?f (replicate CHUNK_SIZE 0) 0 (advance sock (?A @ ?B @ ?C)) ?w1
      = Some (True, advance sock (?A @ ?B @ ?C @ c), ?w1\<lparr>trace := trace ?w1 @ progress_events (length c)\<rparr>)"
    if "can_take sock (8 + length p + length c)"
  proof -
    have "can_take (advance sock (?A @ ?B @ ?C)) (length c - 0 * CHUNK_SIZE)"
      using that can_take_advance [of sock "?A @ ?B @ ?C" "length c"]
      by (simp add: length_htonl length_string_bytes add.assoc)
    then show ?thesis
      using send_loop_ok [OF refl n, of ?f 0 "advance sock (?A @ ?B @ ?C)" "replicate CHUNK_SIZE 0" ?w1]
      by (simp add: bytes_sent_after_def advance_advance progress_events_def)
  qed
  have w4: "asio_write (advance sock (?A @ ?B @ ?C @ c)) ?D = (Inr (), advance sock (?A @ ?B @ ?C @ c @ ?D))"
    if "can_take sock (12 + length p + length c)"
    using that write_after [of sock "?A @ ?B @ ?C @ c" ?D]
    by (simp add: length_htonl length_string_bytes add.assoc)
  consider (a) "\<not> can_take sock 4"
    | (b) "can_take sock 4" "\<not> can_take sock (4 + length p)"
    | (c) "can_take sock 4" "can_take sock (4 + length p)" "\<not> can_take sock (8 + length p)"
    | (d) "can_take sock 4" "can_take sock (4 + length p)" "can_take sock (8 + length p)"
          "\<not> can_take sock (8 + length p + length c)"
    using nct by blast
  then show ?thesis
  proof cases
    case a
    then obtain s' where f1: "asio_write sock ?A = (Inl system_error, s')"
      using asio_write_fail [of sock ?A] by (auto simp: length_htonl)
    have "send_file L sock p w = Some (Inl system_error, s', w\<lparr>opens := opens w + 1, trace := trace w @ []\<rparr>)"
      unfolding send_file_def op prod.case option.case Let_def fs
      by (simp only: f1 prod.case sum.case) simp
    then show ?thesis by blast
  next
    case b
    then obtain s' where f2: "asio_write (advance sock ?A) ?B = (Inl system_error, s')"
      using write_after_fail [of sock ?A ?B] by (auto simp: length_htonl length_string_bytes add.assoc)
    have "send_file L sock p w = Some (Inl system_error, s', w\<lparr>opens := opens w + 1, trace := trace w @ []\<rparr>)"
      unfolding send_file_def op prod.case option.case Let_def fs
      by (simp only: w1 [OF b(1)] tkB f2 prod.case sum.case) simp
    then show ?thesis by blast
  next
    case c
    then obtain s' where f3: "asio_write (advance sock (?A @ ?B)) ?C = (Inl system_error, s')"
      using write_after_fail [of sock "?A @ ?B" ?C] by (auto simp: length_htonl length_string_bytes add.assoc)
    have "send_file L sock p w = Some (Inl system_error, s', w\<lparr>opens := opens w + 1, trace := trace w @ []\<rparr>)"
      unfolding send_file_def op prod.case option.case Let_def fs
      by (simp only: w1 [OF c(1)] tkB w2 [OF c(2)] ucast_size_t_uint32 f3 prod.case sum.case) simp
    then show ?thesis by blast
  next
    case d
    have "\<not> can_take (advance sock (?A @ ?B @ ?C)) (length c - 0 * CHUNK_SIZE)"
      using d(3,4) can_take_advance_iff [of sock "?A @ ?B @ ?C" "length c"]
      by (simp add: length_htonl length_string_bytes add.assoc)
    from send_loop_fail [OF refl n _ _ this, of ?f "replicate CHUNK_SIZE 0" ?w1]
    obtain s' t where fl: "send_loop (of_nat (length c)) ?f (replicate CHUNK_SIZE 0) 0
        (advance sock (?A @ ?B @ ?C)) ?w1 = Some (False, s', ?w1\<lparr>trace := trace ?w1 @ t\<rparr>)"
      by (auto simp: bytes_sent_after_def)
    have "send_file L sock p w = Some (Inr False, s', w\<lparr>opens := opens w + 1, trace := trace w @ t\<rparr>)"
      unfolding send_file_def op prod.case option.case Let_def fs
      by (simp only: w1 [OF d(1)] tkB w2 [OF d(2)] ucast_size_t_uint32 w3 [OF d(3)] fl
          prod.case sum.case option.case bool.case if_False) simp
    then show ?thesis by blast
  qed
qed

lemma send_file_fail_late:
  assumes o1: "disk w (opens w) p = Some c"
    and o2: "disk w (opens w + 1) p = Some c2"
    and t1: "tell w (opens w) p = int (length c)"
    and n: "length c < 2 ^ 64"
    and pl: "length p < 2 ^ 32"
    and ct: "can_take sock (8 + length p + length c)"
    and nct: "\<not> can_take sock (44 + length p + length c)"
  shows "\<exists>s' k. send_file L sock p w
      = Some (Inl system_error, s',
          w\<lparr>opens := opens w + 2,
            trace := trace w @ progress_events (length c) @
              [Endl, CalculatedMD5 (render_digest (streaming_hash L c2))]\<rparr>)
    \<and> sent s' = sent sock @ htonl_bytes (of_nat (length p)) @ string_bytes p @
          htonl_bytes (of_nat (length c)) @ c @
          take k (htonl_bytes 32 @ string_bytes (render_digest (streaming_hash L c2)))"
proof -
  let ?h = "render_digest (streaming_hash L c2)"
  let ?A = "htonl_bytes (of_nat (length p))"
  let ?B = "string_bytes p"
  let ?C = "htonl_bytes (of_nat (length c))"
  let ?D = "htonl_bytes (of_nat (length ?h))"
  let ?E = "string_bytes ?h"
  let ?f = "\<lparr>unread = c, failbit = False, end_pos = int (length c)\<rparr>"
  let ?w1 = "w\<lparr>opens := opens w + 1\<rparr>"
  let ?w2 = "emit (?w1\<lparr>trace := trace ?w1 @ progress_events (length c)\<rparr>) Endl"
  have op: "ifstream_open w p = (Some ?f, ?w1)"
    using o1 t1 by (simp add: ifstream_open_def)
  have fs: "(of_int (seekg_end_tellg ?f) :: size_t) = of_nat (length c)"
    by (simp add: seekg_end_tellg_def)
  have hl: "length ?h = 32" by (rule length_render_digest)
  have tkB: "take (unat (of_nat (length p) :: uint32_t)) ?B = ?B"
    using pl by (simp add: unat_uint32_of_nat length_string_bytes)
  have tkE: "take (unat (of_nat (length ?h) :: uint32_t)) ?E = ?E"
    by (simp add: hl length_string_bytes)
  have md: "calculate_md5 L p ?w2 = (Inr ?h, ?w2\<lparr>opens := opens ?w2 + 1\<rparr>)"
    using o2 by (intro calculate_md5_ok) (simp add: emit_def)
  have w1: "asio_write sock ?A = (Inr (), advance sock ?A)" if "can_take sock 4"
    using that by (intro asio_write_ok) (simp add: length_htonl)
  have w2: "asio_write (advance sock ?A) ?B = (Inr (), advance sock (?A @ ?B))"
    if "can_take sock (4 + length p)"
    using that by (intro write_after) (simp add: length_htonl length_string_bytes add.assoc)
  have w3: "asio_write (advance sock (?A @ ?B)) ?C = (Inr (), advance sock (?A @ ?B @ ?C))"
    if "can_take sock (8 + length p)"
    using that write_after [of sock "?A @ ?B" ?C]
    by (simp add: length_htonl length_string_bytes add.assoc)
  have lp: "send_loop (of_nat (length c)) ?f (replicate CHUNK_SIZE 0) 0 (advance sock (?A @ ?B @ ?C)) ?w1
      = Some (True, advance sock (?A @ ?B @ ?C @ c), ?w1\<lparr>trace := trace ?w1 @ progress_events (length c)\<rparr>)"
    if "can_take sock (8 + length p + length c)"
  proof -
    have "can_take (advance sock (?A @ ?B @ ?C)) (length c - 0 * CHUNK_SIZE)"
      using that can_take_advance [of sock "?A @ ?B @ ?C" "length c"]
      by (simp add: length_htonl length_string_bytes add.assoc)
    then show ?thesis
      using send_loop_ok [OF refl n, of ?f 0 "advance sock (?A @ ?B @ ?C)" "replicate CHUNK_SIZE 0" ?w1]
      by (simp add: bytes_sent_after_def advance_advance progress_events_def)
  qed
  have w4: "asio_write (advance sock (?A @ ?B @ ?C @ c)) ?D = (Inr (), advance sock (?A @ ?B @ ?C @ c @ ?D))"
    if "can_take sock (12 + length p + length c)"
    using that write_after [of sock "?A @ ?B @ ?C @ c" ?D]
    by (simp add: length_htonl length_string_bytes add.assoc)
  have c8: "can_take sock (8 + length p)" "can_take sock (4 + length p)" "can_take sock 4"
    using ct by (auto intro: can_take_less)
  consider (e) "can_take sock 4" "can_take sock (4 + length p)" "can_take sock (8 + length p)"
          "can_take sock (8 + length p + length c)" "\<not> can_take sock (12 + length p + length c)"
    | (f) "can_take sock 4" "can_take sock (4 + length p)" "can_take sock (8 + length p)"
          "can_take sock (8 + length p + length c)" "can_take sock (12 + length p + length c)"
    using ct c8 by blast
  then show ?thesis
  proof cases
    case e
    then obtain s' k where f4: "asio_write (advance sock (?A @ ?B @ ?C @ c)) ?D = (Inl system_error, s')"
      and s4: "sent s' = sent sock @ (?A @ ?B @ ?C @ c) @ take k ?D" and k4: "k < length ?D"
      using write_after_fail_sent [of sock "?A @ ?B @ ?C @ c" ?D]
      by (auto simp: length_htonl length_string_bytes add.assoc)
    have "send_file L sock p w = Some (Inl system_error, s',
        w\<lparr>opens := opens w + 2, trace := trace w @ (progress_events (length c) @ [Endl, CalculatedMD5 ?h])\<rparr>)"
      unfolding send_file_def op prod.case option.case Let_def fs
      apply (simp only: w1 [OF e(1)] tkB w2 [OF e(2)] ucast_size_t_uint32 w3 [OF e(3)] lp [OF e(4)]
          prod.case sum.case option.case bool.case if_True md f4)
      apply (simp add: emit_def)
      done
    moreover have "sent s' = sent sock @ ?A @ ?B @ ?C @ c @ take k (htonl_bytes 32 @ ?E)"
      using s4 k4 by (simp add: hl)
    ultimately show ?thesis by blast
  next
    case f
    then have "\<not> can_take sock (length (?A @ ?B @ ?C @ c @ ?D) + length ?E)"
      using nct by (simp add: length_htonl length_string_bytes hl add.assoc)
    moreover have "can_take sock (length (?A @ ?B @ ?C @ c @ ?D))"
      using f(5) by (simp add: length_htonl length_string_bytes add.assoc)
    ultimately obtain s' k where f5: "asio_write (advance sock (?A @ ?B @ ?C @ c @ ?D)) ?E = (Inl system_error, s')"
      and s5: "sent s' = sent sock @ (?A @ ?B @ ?C @ c @ ?D) @ take k ?E"
      using write_after_fail_sent [of sock "?A @ ?B @ ?C @ c @ ?D" ?E] by blast
    have "send_file L sock p w = Some (Inl system_error, s',
        w\<lparr>opens := opens w + 2, trace := trace w @ (progress_events (length c) @ [Endl, CalculatedMD5 ?h])\<rparr>)"
      unfolding send_file_def op prod.case option.case Let_def fs
      apply (simp only: w1 [OF f(1)] tkB w2 [OF f(2)] ucast_size_t_uint32 w3 [OF f(3)] lp [OF f(4)]
          prod.case sum.case option.case bool.case if_True md w4 [OF f(5)] tkE f5)
      apply (simp add: emit_def)
      done
    moreover have "sent s' = sent sock @ ?A @ ?B @ ?C @ c @ take (4 + k) (htonl_bytes 32 @ ?E)"
      using s5 by (simp add: hl length_htonl)
    ultimately show ?thesis by blast
  qed
qed

lemma send_file_md5_fail:
  assumes o1: "disk w (opens w) p = Some c"
    and o2: "disk w (opens w + 1) p = None"
    and t1: "tell w (opens w) p = int (length c)"
    and n: "length c < 2 ^ 64"
    and pl: "length p < 2 ^ 32"
    and ct: "can_take sock (8 + length p + length c)"
  shows "send_file L sock p w
      = Some (Inl runtime_error,
          advance sock (htonl_bytes (of_nat (length p)) @ string_bytes p @
            htonl_bytes (of_nat (length c)) @ c),
          w\<lparr>opens := opens w + 2, trace := trace w @ progress_events (length c) @ [Endl]\<rparr>)"
proof -
  let ?h = "render_digest (streaming_hash L c2)"
  let ?A = "htonl_bytes (of_nat (length p))"
  let ?B = "string_bytes p"
  let ?C = "htonl_bytes (of_nat (length c))"
  let ?D = "htonl_bytes (of_nat (length ?h))"
  let ?E = "string_bytes ?h"
  let ?f = "\<lparr>unread = c, failbit = False, end_pos = int (length c)\<rparr>"
  let ?w1 = "w\<lparr>opens := opens w + 1\<rparr>"
  let ?w2 = "emit (?w1\<lparr>trace := trace ?w1 @ progress_events (length c)\<rparr>) Endl"
  have op: "ifstream_open w p = (Some ?f, ?w1)"
    using o1 t1 by (simp add: ifstream_open_def)
  have fs: "(of_int (seekg_end_tellg ?f) :: size_t) = of_nat (length c)"
    by (simp add: seekg_end_tellg_def)
  have hl: "length ?h = 32" by (rule length_render_digest)
  have tkB: "take (unat (of_nat (length p) :: uint32_t)) ?B = ?B"
    using pl by (simp add: unat_uint32_of_nat length_string_bytes)
  have tkE: "take (unat (of_nat (length ?h) :: uint32_t)) ?E = ?E"
    by (simp add: hl length_string_bytes)
  have md: "calculate_md5 L p ?w2 = (Inl runtime_error, ?w2\<lparr>opens := opens ?w2 + 1\<rparr>)"
    using o2 by (intro calculate_md5_fail) (simp add: emit_def)
  have w1: "asio_write sock ?A = (Inr (), advance sock ?A)" if "can_take sock 4"
    using that by (intro asio_write_ok) (simp add: length_htonl)
  have w2: "asio_write (advance sock ?A) ?B = (Inr (), advance sock (?A @ ?B))"
    if "can_take sock (4 + length p)"
    using that by (intro write_after) (simp add: length_htonl length_string_bytes add.assoc)
  have w3: "asio_write (advance sock (?A @ ?B)) ?C = (Inr (), advance sock (?A @ ?B @ ?C))"
    if "can_take sock (8 + length p)"
    using that write_after [of sock "?A @ ?B" ?C]
    by (simp add: length_htonl length_string_bytes add.assoc)
  have lp: "send_loop (of_nat (length c)) ?f (replicate CHUNK_SIZE 0) 0 (advance sock (?A @ ?B @ ?C)) ?w1
      = Some (True, advance sock (?A @ ?B @ ?C @ c), ?w1\<lparr>trace := trace ?w1 @ progress_events (length c)\<rparr>)"
    if "can_take sock (8 + length p + length c)"
  proof -
    have "can_take (advance sock (?A @ ?B @ ?C)) (length c - 0 * CHUNK_SIZE)"
      using that can_take_advance [of sock "?A @ ?B @ ?C" "length c"]
      by (simp add: length_htonl length_string_bytes add.assoc)
    then show ?thesis
      using send_loop_ok [OF refl n, of ?f 0 "advance sock (?A @ ?B @ ?C)" "replicate CHUNK_SIZE 0" ?w1]
      by (simp add: bytes_sent_after_def advance_advance progress_events_def)
  qed
  have w4: "asio_write (advance sock (?A @ ?B @ ?C @ c)) ?D = (Inr (), advance sock (?A @ ?B @ ?C @ c @ ?D))"
    if "can_take sock (12 + length p + length c)"
    using that write_after [of sock "?A @ ?B @ ?C @ c" ?D]
    by (simp add: length_htonl length_string_bytes add.assoc)
  have c8: "can_take sock (8 + length p)" "can_take sock (4 + length p)" "can_take sock 4"
    using ct by (auto intro: can_take_less)
  show ?thesis
    unfolding send_file_def op prod.case option.case Let_def fs
    apply (simp only: w1 [OF c8(3)] tkB w2 [OF c8(2)] ucast_size_t_uint32 w3 [OF c8(1)] lp [OF ct]
        prod.case sum.case option.case bool.case if_True md)
    apply (simp add: emit_def)
    done
qed

subsection \<open>Single rounds of the payload loop\<close>

lemma send_loop_stop:
  "\<not> tot < file_size \<Longrightarrow> send_loop file_size f buffer tot s w = Some (True, s, w)"
  by (subst send_loop.simps) simp

lemma send_loop_step:
  assumes "tot < file_size" "\<not> failbit f" "unread f \<noteq> []"
    and "can_take s (length (take CHUNK_SIZE (unread f)))"
  shows "send_loop file_size f buffer tot s w =
    send_loop file_size
      (f\<lparr>unread := drop CHUNK_SIZE (unread f),
         failbit := length (take CHUNK_SIZE (unread f)) < CHUNK_SIZE\<rparr>)
      (take CHUNK_SIZE (unread f) @ drop (length (take CHUNK_SIZE (unread f))) buffer)
      (tot + of_nat (length (take CHUNK_SIZE (unread f))))
      (advance s (take CHUNK_SIZE (unread f)))
      (emit w (Progress (100 * (tot + of_nat (length (take CHUNK_SIZE (unread f)))) div file_size)))"
proof -
  let ?got = "take CHUNK_SIZE (unread f)"
  have rd: "ifstream_read f buffer CHUNK_SIZE =
      (f\<lparr>unread := drop CHUNK_SIZE (unread f), failbit := length ?got < CHUNK_SIZE\<rparr>,
       ?got @ drop (length ?got) buffer, length ?got)"
    using assms(2) by (simp add: ifstream_read_def Let_def)
  have pos: "0 < length ?got" using assms(3) CHUNK_SIZE_pos by (cases "unread f") auto
  have tk: "take (length ?got) (?got @ drop (length ?got) buffer) = ?got"
    by (rule take_length_append)
  have wr: "asio_write s ?got = (Inr (), advance s ?got)"
    using assms(4) by (rule asio_write_ok)
  show ?thesis
    apply (subst send_loop.simps)
    apply (simp only: assms(1) if_True rd prod.case pos tk wr sum.case Let_def)
    done
qed

lemma send_loop_step_fail:
  assumes "tot < file_size" "\<not> failbit f" "unread f \<noteq> []"
    and "room s = Some r" "r < length (take CHUNK_SIZE (unread f))"
  shows "send_loop file_size f buffer tot s w =
    Some (False, s\<lparr>sent := sent s @ take r (take CHUNK_SIZE (unread f)), room := Some 0\<rparr>,
          emit w FailedToSendData)"
proof -
  let ?got = "take CHUNK_SIZE (unread f)"
  have rd: "ifstream_read f buffer CHUNK_SIZE =
      (f\<lparr>unread := drop CHUNK_SIZE (unread f), failbit := length ?got < CHUNK_SIZE\<rparr>,
       ?got @ drop (length ?got) buffer, length ?got)"
    using assms(2) by (simp add: ifstream_read_def Let_def)
  have pos: "0 < length ?got" using assms(3) CHUNK_SIZE_pos by (cases "unread f") auto
  have tk: "take (length ?got) (?got @ drop (length ?got) buffer) = ?got"
    by (rule take_length_append)
  have wr: "asio_write s ?got =
      (Inl system_error, s\<lparr>sent := sent s @ take r ?got, room := Some 0\<rparr>)"
    using assms(4,5) by (auto simp: asio_write_def)
  show ?thesis
    apply (subst send_loop.simps)
    apply (simp only: assms(1) if_True rd prod.case pos tk wr sum.case)
    done
qed


subsection \<open>A transfer whose payload goes out in full\<close>

lemma progress_of_append: "progress_of (a @ b) = progress_of a @ progress_of b"
  by (induction a rule: progress_of.induct) simp_all

lemma send_file_payload_done:
  assumes o1: "disk w (opens w) p = Some c"
    and t1: "tell w (opens w) p = int (length c)"
    and n: "length c < 2 ^ 64"
    and pl: "length p < 2 ^ 32"
    and ct: "can_take sock (8 + length p + length c)"
  shows "\<exists>r s' w' es tail. send_file L sock p w = Some (r, s', w')
    \<and> sent s' = sent sock @ htonl_bytes (of_nat (length p)) @ string_bytes p @
          htonl_bytes (of_nat (length c)) @ c @ tail
    \<and> trace w' = trace w @ progress_events (length c) @ es
    \<and> progress_of es = []
    \<and> (case disk w (opens w + 1) p of
          None \<Rightarrow> tail = []
        | Some c2 \<Rightarrow>
            (\<exists>k. tail = take k (htonl_bytes 32 @ string_bytes (render_digest (streaming_hash L c2)))))"
proof (cases "disk w (opens w + 1) p")
  case None
  let ?hdr = "htonl_bytes (of_nat (length p)) @ string_bytes p @ htonl_bytes (of_nat (length c)) @ c"
  let ?w' = "w\<lparr>opens := opens w + 2, trace := trace w @ progress_events (length c) @ [Endl]\<rparr>"
  have "send_file L sock p w = Some (Inl runtime_error, advance sock ?hdr, ?w')"
    by (rule send_file_md5_fail [OF o1 None t1 n pl ct])
  moreover have "sent (advance sock ?hdr) = sent sock @ htonl_bytes (of_nat (length p)) @ string_bytes p @
      htonl_bytes (of_nat (length c)) @ c @ []"
    by (simp add: sent_advance)
  moreover have "trace ?w' = trace w @ progress_events (length c) @ [Endl]" by simp
  moreover have "progress_of [Endl] = []" by simp
  ultimately show ?thesis unfolding None option.case by blast
next
  case (Some c2)
  let ?h = "render_digest (streaming_hash L c2)"
  show ?thesis
  proof (cases "can_take sock (44 + length p + length c)")
    case True
    let ?w' = "w\<lparr>opens := opens w + 2, trace := trace w @ progress_events (length c) @
            [Endl, CalculatedMD5 ?h, SentFile p (of_nat (length c)) ?h]\<rparr>"
    have "send_file L sock p w = Some (Inr True, advance sock (frame p c ?h), ?w')"
      by (rule send_file_ok [OF o1 Some t1 n pl True])
    moreover have "sent (advance sock (frame p c ?h)) = sent sock @ htonl_bytes (of_nat (length p)) @
        string_bytes p @ htonl_bytes (of_nat (length c)) @ c @ take 36 (htonl_bytes 32 @ string_bytes ?h)"
      by (simp add: sent_advance frame_def length_render_digest length_htonl length_string_bytes)
    moreover have "trace ?w' = trace w @ progress_events (length c) @
        [Endl, CalculatedMD5 ?h, SentFile p (of_nat (length c)) ?h]" by simp
    moreover have "progress_of [Endl, CalculatedMD5 ?h, SentFile p (of_nat (length c)) ?h] = []" by simp
    ultimately show ?thesis unfolding Some option.case by blast
  next
    case False
    from send_file_fail_late [OF o1 Some t1 n pl ct False, of L] obtain s' k where
      sf: "send_file L sock p w = Some (Inl system_error, s',
          w\<lparr>opens := opens w + 2, trace := trace w @ progress_events (length c) @ [Endl, CalculatedMD5 ?h]\<rparr>)"
      and st: "sent s' = sent sock @ htonl_bytes (of_nat (length p)) @ string_bytes p @
          htonl_bytes (of_nat (length c)) @ c @ take k (htonl_bytes 32 @ string_bytes ?h)"
      by blast
    let ?w' = "w\<lparr>opens := opens w + 2, trace := trace w @ progress_events (length c) @ [Endl, CalculatedMD5 ?h]\<rparr>"
    have "trace ?w' = trace w @ progress_events (length c) @ [Endl, CalculatedMD5 ?h]" by simp
    moreover have "progress_of [Endl, CalculatedMD5 ?h] = []" by simp
    ultimately show ?thesis unfolding Some option.case using sf st by blast
  qed
qed


subsection \<open>A file that is not what tellg() reported, and a connection that breaks\<close>

lemma grown_file_run:
  assumes o1: "disk w (opens w) p = Some [1, 2, 3, 4, 5]"
    and t1: "tell w (opens w) p = 3"
    and o2: "disk w (opens w + 1) p = Some c2"
    and pl: "length p < 2 ^ 32"
    and r: "room sock = None"
  shows "send_file L sock p w =
    Some (Inr True,
      advance sock (htonl_bytes (of_nat (length p)) @ string_bytes p @ [0, 0, 0, 3] @
        [1, 2, 3, 4, 5] @ htonl_bytes 32 @ string_bytes (render_digest (streaming_hash L c2))),
      w\<lparr>opens := opens w + 2,
        trace := trace w @
          [Progress 166, Endl, CalculatedMD5 (render_digest (streaming_hash L c2)),
           SentFile p 3 (render_digest (streaming_hash L c2))]\<rparr>)"
proof -
  let ?h = "render_digest (streaming_hash L c2)"
  let ?A = "htonl_bytes (of_nat (length p))"
  let ?B = "string_bytes p"
  let ?C = "[0, 0, 0, 3] :: byte list"
  let ?c = "[1, 2, 3, 4, 5] :: byte list"
  let ?D = "htonl_bytes 32"
  let ?E = "string_bytes ?h"
  let ?f = "\<lparr>unread = ?c, failbit = False, end_pos = 3\<rparr>"
  let ?w1 = "w\<lparr>opens := opens w + 1\<rparr>"
  have any: "can_take sock k" for k using r by (simp add: can_take_def)
  have any': "can_take (advance sock bs) k" for bs k using r by (simp add: can_take_def advance_def)
  have op: "ifstream_open w p = (Some ?f, ?w1)"
    using o1 t1 by (simp add: ifstream_open_def)
  have fs: "(of_int (seekg_end_tellg ?f) :: size_t) = 3"
    by (simp add: seekg_end_tellg_def)
  have sz: "htonl_bytes (ucast (3 :: size_t)) = ?C" by (simp add: htonl_bytes_def)
  have w1: "asio_write sock ?A = (Inr (), advance sock ?A)"
    by (rule asio_write_ok) (rule any)
  have w2: "asio_write (advance sock ?A) ?B = (Inr (), advance sock (?A @ ?B))"
    by (rule write_after) (rule any)
  have w3: "asio_write (advance sock (?A @ ?B)) ?C = (Inr (), advance sock (?A @ ?B @ ?C))"
    using write_after [of sock "?A @ ?B" ?C] any by simp
  have tkc: "take CHUNK_SIZE ?c = ?c" "drop CHUNK_SIZE ?c = []" by (simp_all add: CHUNK_SIZE_def)
  have lp: "send_loop 3 ?f (replicate CHUNK_SIZE 0) 0 (advance sock (?A @ ?B @ ?C)) ?w1
      = Some (True, advance sock (?A @ ?B @ ?C @ ?c), ?w1\<lparr>trace := trace ?w1 @ [Progress 166]\<rparr>)"
    apply (subst send_loop_step)
        apply (simp_all add: tkc any')
    apply (subst send_loop_stop)
     apply (simp_all add: advance_advance emit_def)
    done
  let ?w2 = "emit (?w1\<lparr>trace := trace ?w1 @ [Progress 166]\<rparr>) Endl"
  have md: "calculate_md5 L p ?w2 = (Inr ?h, ?w2\<lparr>opens := opens ?w2 + 1\<rparr>)"
    using o2 by (intro calculate_md5_ok) (simp add: emit_def)
  have hl: "length ?h = 32" by (rule length_render_digest)
  have w4: "asio_write (advance sock (?A @ ?B @ ?C @ ?c)) ?D = (Inr (), advance sock (?A @ ?B @ ?C @ ?c @ ?D))"
    using write_after [of sock "?A @ ?B @ ?C @ ?c" ?D] any by simp
  have w5: "asio_write (advance sock (?A @ ?B @ ?C @ ?c @ ?D)) ?E = (Inr (), advance sock (?A @ ?B @ ?C @ ?c @ ?D @ ?E))"
    using write_after [of sock "?A @ ?B @ ?C @ ?c @ ?D" ?E] any by simp
  have tkB: "take (unat (of_nat (length p) :: uint32_t)) ?B = ?B"
    using pl by (simp add: unat_uint32_of_nat length_string_bytes)
  have tkE: "take (unat (of_nat (length ?h) :: uint32_t)) ?E = ?E"
    by (simp add: hl length_string_bytes)
  have D: "htonl_bytes (of_nat (length ?h)) = ?D" by (simp add: hl)
  show ?thesis
    unfolding send_file_def op prod.case option.case Let_def fs
    apply (simp only: w1 prod.case sum.case tkB w2 sz w3 lp option.case bool.case if_True md
        tkE D w4 w5)
    apply (simp add: emit_def)
    done
qed

lemma unmeasured_file_run:
  assumes o1: "disk w (opens w) p = Some c"
    and t1: "tell w (opens w) p = 0"
    and o2: "disk w (opens w + 1) p = Some c2"
    and pl: "length p < 2 ^ 32"
    and r: "room sock = None"
  shows "send_file L sock p w =
    Some (Inr True,
      advance sock (htonl_bytes (of_nat (length p)) @ string_bytes p @ [0, 0, 0, 0] @
        htonl_bytes 32 @ string_bytes (render_digest (streaming_hash L c2))),
      w\<lparr>opens := opens w + 2,
        trace := trace w @
          [Endl, CalculatedMD5 (render_digest (streaming_hash L c2)),
           SentFile p 0 (render_digest (streaming_hash L c2))]\<rparr>)"
proof -
  let ?h = "render_digest (streaming_hash L c2)"
  let ?A = "htonl_bytes (of_nat (length p))"
  let ?B = "string_bytes p"
  let ?C = "[0, 0, 0, 0] :: byte list"
  let ?D = "htonl_bytes 32"
  let ?E = "string_bytes ?h"
  let ?f = "\<lparr>unread = c, failbit = False, end_pos = 0\<rparr>"
  let ?w1 = "w\<lparr>opens := opens w + 1\<rparr>"
  have any: "can_take sock k" for k using r by (simp add: can_take_def)
  have op: "ifstream_open w p = (Some ?f, ?w1)"
    using o1 t1 by (simp add: ifstream_open_def)
  have fs: "(of_int (seekg_end_tellg ?f) :: size_t) = 0"
    by (simp add: seekg_end_tellg_def)
  have sz: "htonl_bytes (ucast (0 :: size_t)) = ?C" by (simp add: htonl_bytes_def)
  have w1: "asio_write sock ?A = (Inr (), advance sock ?A)"
    by (rule asio_write_ok) (rule any)
  have w2: "asio_write (advance sock ?A) ?B = (Inr (), advance sock (?A @ ?B))"
    by (rule write_after) (rule any)
  have w3: "asio_write (advance sock (?A @ ?B)) ?C = (Inr (), advance sock (?A @ ?B @ ?C))"
    using write_after [of sock "?A @ ?B" ?C] any by simp
  have lp: "send_loop 0 ?f (replicate CHUNK_SIZE 0) 0 (advance sock (?A @ ?B @ ?C)) ?w1
      = Some (True, advance sock (?A @ ?B @ ?C), ?w1)"
    by (rule send_loop_stop) simp
  let ?w2 = "emit ?w1 Endl"
  have md: "calculate_md5 L p ?w2 = (Inr ?h, ?w2\<lparr>opens := opens ?w2 + 1\<rparr>)"
    using o2 by (intro calculate_md5_ok) (simp add: emit_def)
  have hl: "length ?h = 32" by (rule length_render_digest)
  have w4: "asio_write (advance sock (?A @ ?B @ ?C)) ?D = (Inr (), advance sock (?A @ ?B @ ?C @ ?D))"
    using write_after [of sock "?A @ ?B @ ?C" ?D] any by simp
  have w5: "asio_write (advance sock (?A @ ?B @ ?C @ ?D)) ?E = (Inr (), advance sock (?A @ ?B @ ?C @ ?D @ ?E))"
    using write_after [of sock "?A @ ?B @ ?C @ ?D" ?E] any by simp
  have tkB: "take (unat (of_nat (length p) :: uint32_t)) ?B = ?B"
    using pl by (simp add: unat_uint32_of_nat length_string_bytes)
  have tkE: "take (unat (of_nat (length ?h) :: uint32_t)) ?E = ?E"
    by (simp add: hl length_string_bytes)
  have D: "htonl_bytes (of_nat (length ?h)) = ?D" by (simp add: hl)
  show ?thesis
    unfolding send_file_def op prod.case option.case Let_def fs
    apply (simp only: w1 prod.case sum.case tkB w2 sz w3 lp option.case bool.case if_True md
        tkE D w4 w5)
    apply (simp add: emit_def)
    done
qed

lemma broken_link_run:
  assumes o1: "disk w (opens w) ''a'' = Some (replicate 5000 7)"
    and t1: "tell w (opens w) ''a'' = 5000"
  shows "\<exists>s'. send_file L \<lparr>sent = [], room = Some 4106\<rparr> ''a'' w =
      Some (Inr False, s',
        w\<lparr>opens := opens w + 1, trace := trace w @ [Progress 81, FailedToSendData]\<rparr>)
    \<and> sent s' = [0, 0, 0, 1, 97] @ [0, 0, 19, 136] @ replicate 4097 7"
proof -
  let ?sock = "\<lparr>sent = [], room = Some 4106\<rparr>"
  let ?A = "[0, 0, 0, 1] :: byte list"
  let ?B = "[97] :: byte list"
  let ?C = "[0, 0, 19, 136] :: byte list"
  let ?c = "replicate 5000 7 :: byte list"
  let ?f = "\<lparr>unread = ?c, failbit = False, end_pos = 5000\<rparr>"
  let ?w1 = "w\<lparr>opens := opens w + 1\<rparr>"
  let ?s3 = "\<lparr>sent = ?A @ ?B @ ?C, room = Some 4097\<rparr>"
  let ?s4 = "\<lparr>sent = ?A @ ?B @ ?C @ replicate 4096 7, room = Some 1\<rparr>"
  have op: "ifstream_open w ''a'' = (Some ?f, ?w1)"
    using o1 t1 by (simp add: ifstream_open_def)
  have fs: "(of_int (seekg_end_tellg ?f) :: size_t) = 5000"
    by (simp add: seekg_end_tellg_def)
  have A: "htonl_bytes (of_nat (length ''a'')) = ?A" by (simp add: htonl_bytes_def)
  have B: "take (unat (of_nat (length ''a'') :: uint32_t)) (string_bytes ''a'') = ?B"
    by (simp add: string_bytes_def)
  have C: "htonl_bytes (ucast (5000 :: size_t)) = ?C" by (simp add: htonl_bytes_def)
  have w1: "asio_write ?sock ?A = (Inr (), \<lparr>sent = ?A, room = Some 4102\<rparr>)"
    by (simp add: asio_write_def)
  have w2: "asio_write \<lparr>sent = ?A, room = Some 4102\<rparr> ?B = (Inr (), \<lparr>sent = ?A @ ?B, room = Some 4101\<rparr>)"
    by (simp add: asio_write_def)
  have w3: "asio_write \<lparr>sent = ?A @ ?B, room = Some 4101\<rparr> ?C = (Inr (), ?s3)"
    by (simp add: asio_write_def)
  have "replicate 4097 (7 :: byte) = replicate (Suc 4096) 7" by simp
  also have "\<dots> = replicate 4096 7 @ [7]"
    by (simp only: replicate_Suc replicate_append_same)
  finally have rp: "replicate 4096 (7 :: byte) @ [7] = replicate 4097 7" by simp
  have lp: "send_loop 5000 ?f (replicate CHUNK_SIZE 0) 0 ?s3 ?w1
      = Some (False, \<lparr>sent = ?A @ ?B @ ?C @ replicate 4097 7, room = Some 0\<rparr>,
          ?w1\<lparr>trace := trace ?w1 @ [Progress 81, FailedToSendData]\<rparr>)"
    apply (subst send_loop_step)
        apply (simp_all add: CHUNK_SIZE_def can_take_def)
    apply (subst send_loop_step_fail [where r = 1])
         apply (simp_all add: CHUNK_SIZE_def advance_def emit_def)
    apply (rule rp)
    done
  have "send_file L ?sock ''a'' w =
      Some (Inr False, \<lparr>sent = ?A @ ?B @ ?C @ replicate 4097 7, room = Some 0\<rparr>,
        w\<lparr>opens := opens w + 1, trace := trace w @ [Progress 81, FailedToSendData]\<rparr>)"
    unfolding send_file_def op prod.case option.case Let_def fs
    apply (simp only: A w1 prod.case sum.case B w2 C w3 lp option.case bool.case if_False)
    apply simp
    done
  then show ?thesis by simp
qed


subsection \<open>A payload loop that never ends\<close>

lemma send_loop_starved_aux:
  assumes "send_loop file_size f buffer tot s w = Some y"
  shows "\<not> (tot < file_size \<and> (failbit f \<or> unread f = []))"
  using assms
proof (rule send_loop.raw_induct [rotated, where P = "\<lambda>file_size f buffer tot s w y.
    \<not> (tot < file_size \<and> (failbit f \<or> unread f = []))"])
  fix g :: "size_t \<Rightarrow> ifstream \<Rightarrow> byte list \<Rightarrow> size_t \<Rightarrow> socket \<Rightarrow> world \<Rightarrow> (bool \<times> socket \<times> world) option"
    and file_size f buffer tot s w y
  assume IH: "\<And>file_size f buffer tot s w y. g file_size f buffer tot s w = Some y \<Longrightarrow>
      \<not> (tot < file_size \<and> (failbit f \<or> unread f = []))"
    and body: "(if tot < file_size then
        (case ifstream_read f buffer CHUNK_SIZE of
           (file', buffer', bytes_read) \<Rightarrow>
             if bytes_read > 0 then
               (case asio_write s (take bytes_read buffer') of
                  (Inr _, sock') \<Rightarrow>
                    let total' = tot + of_nat bytes_read;
                        w' = emit w (Progress (100 * total' div file_size))
                    in g file_size file' buffer' total' sock' w'
                | (Inl e, sock') \<Rightarrow> Some (False, sock', emit w FailedToSendData))
             else g file_size file' buffer' tot s w)
      else Some (True, s, w)) = Some y"
  show "\<not> (tot < file_size \<and> (failbit f \<or> unread f = []))"
  proof
    assume inv: "tot < file_size \<and> (failbit f \<or> unread f = [])"
    then have lt: "tot < file_size" by simp
    from inv have "\<exists>f'. ifstream_read f buffer CHUNK_SIZE = (f', buffer, 0)
        \<and> (failbit f' \<or> unread f' = [])"
      by (auto simp: ifstream_read_def CHUNK_SIZE_def)
    then obtain f' where rd: "ifstream_read f buffer CHUNK_SIZE = (f', buffer, 0)"
      and st: "failbit f' \<or> unread f' = []" by blast
    from body have "g file_size f' buffer tot s w = Some y"
      by (simp only: lt if_True rd prod.case less_irrefl if_False)
    from IH [OF this] lt st show False by simp
  qed
qed

lemma send_loop_starved:
  assumes "tot < file_size" and "failbit f \<or> unread f = []"
  shows "send_loop file_size f buffer tot s w = None"
proof (cases "send_loop file_size f buffer tot s w")
  case None
  then show ?thesis .
next
  case (Some y)
  from send_loop_starved_aux [OF this] assms show ?thesis by simp
qed

lemma send_file_starved:
  assumes o1: "disk w (opens w) p = Some []"
    and t1: "(of_int (tell w (opens w) p) :: size_t) \<noteq> 0"
    and pl: "length p < 2 ^ 32"
    and ct: "can_take sock (8 + length p)"
  shows "send_file L sock p w = None"
proof -
  let ?A = "htonl_bytes (of_nat (length p))"
  let ?B = "string_bytes p"
  let ?fs = "of_int (tell w (opens w) p) :: size_t"
  let ?C = "htonl_bytes (ucast ?fs)"
  let ?f = "\<lparr>unread = [], failbit = False, end_pos = tell w (opens w) p\<rparr>"
  let ?w1 = "w\<lparr>opens := opens w + 1\<rparr>"
  have op: "ifstream_open w p = (Some ?f, ?w1)"
    using o1 by (simp add: ifstream_open_def)
  have fs: "(of_int (seekg_end_tellg ?f) :: size_t) = ?fs"
    by (simp add: seekg_end_tellg_def)
  have w1: "asio_write sock ?A = (Inr (), advance sock ?A)"
    by (rule asio_write_ok) (rule can_take_less [OF ct], simp add: length_htonl)
  have w2: "asio_write (advance sock ?A) ?B = (Inr (), advance sock (?A @ ?B))"
    by (rule write_after) (rule can_take_less [OF ct], simp add: length_htonl length_string_bytes)
  have w3: "asio_write (advance sock (?A @ ?B)) ?C = (Inr (), advance sock (?A @ ?B @ ?C))"
    using write_after [of sock "?A @ ?B" ?C] ct
    by (simp add: length_htonl length_string_bytes add.commute)
  have tkB: "take (unat (of_nat (length p) :: uint32_t)) ?B = ?B"
    using pl by (simp add: unat_uint32_of_nat length_string_bytes)
  have "0 < ?fs" using t1 by (simp add: word_gt_0)
  then have lp: "send_loop ?fs ?f (replicate CHUNK_SIZE 0) 0 (advance sock (?A @ ?B @ ?C)) ?w1 = None"
    by (rule send_loop_starved) simp
  show ?thesis
    unfolding send_file_def op prod.case option.case Let_def fs
    by (simp only: w1 prod.case sum.case tkB w2 w3 lp option.case)
qed

lemma truncated_file_run:
  assumes o1: "disk w (opens w) p = Some [1, 2, 3]"
    and t1: "tell w (opens w) p = 5"
    and pl: "length p < 2 ^ 32"
    and r: "room sock = None"
  shows "send_file L sock p w = None"
proof -
  let ?A = "htonl_bytes (of_nat (length p))"
  let ?B = "string_bytes p"
  let ?C = "[0, 0, 0, 5] :: byte list"
  let ?c = "[1, 2, 3] :: byte list"
  let ?f = "\<lparr>unread = ?c, failbit = False, end_pos = 5\<rparr>"
  let ?w1 = "w\<lparr>opens := opens w + 1\<rparr>"
  have any: "can_take sock k" for k using r by (simp add: can_take_def)
  have any': "can_take (advance sock bs) k" for bs k using r by (simp add: can_take_def advance_def)
  have op: "ifstream_open w p = (Some ?f, ?w1)"
    using o1 t1 by (simp add: ifstream_open_def)
  have fs: "(of_int (seekg_end_tellg ?f) :: size_t) = 5"
    by (simp add: seekg_end_tellg_def)
  have sz: "htonl_bytes (ucast (5 :: size_t)) = ?C" by (simp add: htonl_bytes_def)
  have w1: "asio_write sock ?A = (Inr (), advance sock ?A)"
    by (rule asio_write_ok) (rule any)
  have w2: "asio_write (advance sock ?A) ?B = (Inr (), advance sock (?A @ ?B))"
    by (rule write_after) (rule any)
  have w3: "asio_write (advance sock (?A @ ?B)) ?C = (Inr (), advance sock (?A @ ?B @ ?C))"
    using write_after [of sock "?A @ ?B" ?C] any by simp
  have tkc: "take CHUNK_SIZE ?c = ?c" "drop CHUNK_SIZE ?c = []" by (simp_all add: CHUNK_SIZE_def)
  have lp: "send_loop 5 ?f (replicate CHUNK_SIZE 0) 0 (advance sock (?A @ ?B @ ?C)) ?w1 = None"
    apply (subst send_loop_step)
        apply (simp_all add: tkc any')
    apply (rule send_loop_starved)
     apply simp_all
    done
  have tkB: "take (unat (of_nat (length p) :: uint32_t)) ?B = ?B"
    using pl by (simp add: unat_uint32_of_nat length_string_bytes)
  show ?thesis
    unfolding send_file_def op prod.case option.case Let_def fs
    by (simp only: w1 prod.case sum.case tkB w2 sz w3 lp option.case)
qed

section \<open>Properties of send\_file\<close>

text \<open>
  C4. When the file cannot be opened for reading, \<^verbatim>\<open>send_file\<close> returns false at once:
  the socket it was given comes back as it was, no byte written, and the only things that
  happened are the failed open and the message.
\<close>

theorem C4_open_failure_leaves_connection:
  assumes "disk w (opens w) p = None"
  shows "send_file L sock p w
    = Some (Inr False, sock, emit (w\<lparr>opens := opens w + 1\<rparr>) (FailedToOpen p))"
  using assms by (simp add: send_file_def ifstream_open_def)

theorem C4_witness:
  "disk (fresh_world (\<lambda>_. True) (\<lambda>_. Link None) (\<lambda>_ _. None))
     (opens (fresh_world (\<lambda>_. True) (\<lambda>_. Link None) (\<lambda>_ _. None))) ''f'' = None
   \<and> map_option (\<lambda>(r, s, w). (r, sent s, room s, trace w))
        (send_file sum_lib \<lparr>sent = [7], room = Some 3\<rparr> ''f''
          (fresh_world (\<lambda>_. True) (\<lambda>_. Link None) (\<lambda>_ _. None)))
     = Some (Inr False, [7], Some 3, [FailedToOpen ''f''])"
  using C4_open_failure_leaves_connection
    [of "fresh_world (\<lambda>_. True) (\<lambda>_. Link None) (\<lambda>_ _. None)" "''f''" sum_lib
        "\<lparr>sent = [7], room = Some 3\<rparr>"]
  by (simp add: fresh_world_def emit_def)

lemma send_file_success_needs:
  assumes ok: "send_file L sock p w = Some (Inr True, s', w')"
    and o1: "disk w (opens w) p = Some c"
    and t1: "tell w (opens w) p = int (length c)"
    and n: "length c < 2 ^ 64"
    and pl: "length p < 2 ^ 32"
  shows "can_take sock (44 + length p + length c) \<and> (\<exists>c2. disk w (opens w + 1) p = Some c2)"
proof -
  have ct8: "can_take sock (8 + length p + length c)"
  proof (rule ccontr)
    assume "\<not> can_take sock (8 + length p + length c)"
    from send_file_fail_early [OF o1 t1 n pl this, of L] ok show False by auto
  qed
  have o2: "\<exists>c2. disk w (opens w + 1) p = Some c2"
  proof (cases "disk w (opens w + 1) p")
    case None
    from send_file_md5_fail [OF o1 None t1 n pl ct8, of L] ok show ?thesis by simp
  next
    case (Some c2)
    then show ?thesis by blast
  qed
  then obtain c2 where c2: "disk w (opens w + 1) p = Some c2" by blast
  have "can_take sock (44 + length p + length c)"
  proof (rule ccontr)
    assume "\<not> can_take sock (44 + length p + length c)"
    from send_file_fail_late [OF o1 c2 t1 n pl ct8 this, of L] ok show False by auto
  qed
  with o2 show ?thesis by blast
qed

lemma streaming_hash_length:
  "\<forall>x. length (MD5_Final L x) = MD5_DIGEST_LENGTH \<Longrightarrow> length (streaming_hash L c) = MD5_DIGEST_LENGTH"
  by (simp add: streaming_hash_def)

lemma render_streaming_hash:
  "\<forall>x. length (MD5_Final L x) = MD5_DIGEST_LENGTH \<Longrightarrow>
   render_digest (streaming_hash L c) = lowercase_hex (streaming_hash L c)"
  by (rule render_digest_lowercase_hex) (rule streaming_hash_length)

lemma sum_lib_length: "\<forall>x. length (MD5_Final sum_lib x) = MD5_DIGEST_LENGTH"
  by (simp add: sum_lib_def MD5_DIGEST_LENGTH_def)

lemma ramp_lib_length: "\<forall>x. length (MD5_Final ramp_lib x) = MD5_DIGEST_LENGTH"
  by (simp add: ramp_lib_def MD5_DIGEST_LENGTH_def)

lemma digest_123: "render_digest (streaming_hash sum_lib [1, 2, 3]) = ''06060606060606060606060606060606''"
  by (simp add: render_digest_def streaming_hash_def sum_lib_def file_chunks_def piece_def
      CHUNK_SIZE_def MD5_DIGEST_LENGTH_def snprintf_02x_def hex_digit_def upt_rec)

lemma hex_123: "lowercase_hex (streaming_hash sum_lib [1, 2, 3]) = ''06060606060606060606060606060606''"
  using render_streaming_hash [OF sum_lib_length, of "[1, 2, 3]"] by (simp only: digest_123)

lemma digest_12345:
  "render_digest (streaming_hash sum_lib [1, 2, 3, 4, 5]) = ''0f0f0f0f0f0f0f0f0f0f0f0f0f0f0f0f''"
  by (simp add: render_digest_def streaming_hash_def sum_lib_def file_chunks_def piece_def
      CHUNK_SIZE_def MD5_DIGEST_LENGTH_def snprintf_02x_def hex_digit_def upt_rec)

lemma digest_ramp_empty:
  "render_digest (MD5_Final ramp_lib (MD5_Update ramp_lib (MD5_Init ramp_lib) []))
    = ''abbccddeef00112233445566778899aa''"
  by (simp add: render_digest_def ramp_lib_def MD5_DIGEST_LENGTH_def snprintf_02x_def
      hex_digit_def upt_rec)

lemma hex_ramp_empty:
  "lowercase_hex (MD5_Final ramp_lib (MD5_Update ramp_lib (MD5_Init ramp_lib) []))
    = ''abbccddeef00112233445566778899aa''"
proof -
  have "length (MD5_Final ramp_lib (MD5_Update ramp_lib (MD5_Init ramp_lib) [])) = MD5_DIGEST_LENGTH"
    using ramp_lib_length by blast
  from render_digest_lowercase_hex [OF this] show ?thesis by (simp only: digest_ramp_empty)
qed

text \<open>
  C1, amended. Take a file that does not change while it is sent: \<^verbatim>\<open>tellg()\<close> reports
  the number of bytes the reads then deliver. Whenever \<^verbatim>\<open>send_file\<close> returns true for
  it, what it appended to the connection is, in this order and with nothing in between:
  the length of the name as four big-endian bytes, the name, the file size modulo
  \<open>2 ^ 32\<close> as four big-endian bytes, the file's bytes as one unframed run in file order,
  the length of the checksum string as four big-endian bytes, and the checksum string, the
  lowercase hexadecimal digest of what the file holds when it is opened the second time.
  The MD5 library yields digests of 16 bytes; the path is shorter than \<open>2 ^ 32\<close> bytes
  and the file than \<open>2 ^ 64\<close>.
\<close>

theorem C1_wire_format:
  assumes ok: "send_file L sock p w = Some (Inr True, s', w')"
    and o1: "disk w (opens w) p = Some c"
    and t1: "tell w (opens w) p = int (length c)"
    and n: "length c < 2 ^ 64"
    and pl: "length p < 2 ^ 32"
    and len: "\<forall>x. length (MD5_Final L x) = MD5_DIGEST_LENGTH"
  shows "\<exists>c2 h nf sf hf. disk w (opens w + 1) p = Some c2
    \<and> h = lowercase_hex (streaming_hash L c2)
    \<and> sent s' = sent sock @ nf @ string_bytes p @ sf @ c @ hf @ string_bytes h
    \<and> length nf = 4 \<and> be_nat nf = length p
    \<and> length sf = 4 \<and> be_nat sf = length c mod 2 ^ 32
    \<and> length hf = 4 \<and> be_nat hf = length h"
proof -
  from send_file_success_needs [OF ok o1 t1 n pl] obtain c2
    where ct: "can_take sock (44 + length p + length c)"
      and o2: "disk w (opens w + 1) p = Some c2"
    by blast
  let ?h = "lowercase_hex (streaming_hash L c2)"
  have h: "render_digest (streaming_hash L c2) = ?h"
    using len by (rule render_streaming_hash)
  let ?nf = "htonl_bytes (of_nat (length p))"
  let ?sf = "htonl_bytes (of_nat (length c))"
  let ?hf = "htonl_bytes (of_nat (length ?h))"
  from send_file_ok [OF o1 o2 t1 n pl ct, of L] ok
  have s': "s' = advance sock (frame p c ?h)" by (simp add: h)
  have "sent s' = sent sock @ ?nf @ string_bytes p @ ?sf @ c @ ?hf @ string_bytes ?h"
    unfolding s' sent_advance frame_def ..
  moreover have "length ?nf = 4 \<and> be_nat ?nf = length p"
    using pl by (simp add: length_htonl be_nat_htonl unat_uint32_of_nat)
  moreover have "length ?sf = 4 \<and> be_nat ?sf = length c mod 2 ^ 32"
    by (simp add: length_htonl be_nat_htonl unat_of_nat)
  moreover have "length ?hf = 4 \<and> be_nat ?hf = length ?h"
    using streaming_hash_length [OF len, of c2]
    by (simp add: length_htonl be_nat_htonl length_lowercase_hex MD5_DIGEST_LENGTH_def)
  ultimately show ?thesis using o2 by blast
qed

theorem C1_witness:
  "\<exists>s' w'. send_file sum_lib \<lparr>sent = [], room = None\<rparr> ''a''
       (fresh_world (\<lambda>_. True) (\<lambda>_. Link None) (\<lambda>_ _. Some [1, 2, 3])) = Some (Inr True, s', w')
     \<and> (\<exists>nf sf hf. sent s' = nf @ [97] @ sf @ [1, 2, 3] @ hf @
            [48, 54, 48, 54, 48, 54, 48, 54, 48, 54, 48, 54, 48, 54, 48, 54,
             48, 54, 48, 54, 48, 54, 48, 54, 48, 54, 48, 54, 48, 54, 48, 54]
          \<and> length nf = 4 \<and> be_nat nf = 1 \<and> length sf = 4 \<and> be_nat sf = 3
          \<and> length hf = 4 \<and> be_nat hf = 32)"
proof -
  let ?w = "fresh_world (\<lambda>_. True) (\<lambda>_. Link None) (\<lambda>_ _. Some [1, 2, 3])"
  let ?sock = "\<lparr>sent = [], room = None\<rparr>"
  have o1: "disk ?w (opens ?w) ''a'' = Some [1, 2, 3]" by (simp add: fresh_world_def)
  have o2: "disk ?w (opens ?w + 1) ''a'' = Some [1, 2, 3]" by (simp add: fresh_world_def)
  have t1: "tell ?w (opens ?w) ''a'' = int (length [1, 2, 3 :: byte])" by (simp add: fresh_world_def)
  have n: "length [1, 2, 3 :: byte] < 2 ^ 64" by simp
  have pl: "length ''a'' < 2 ^ 32" by simp
  have ct: "can_take ?sock (44 + length ''a'' + length [1, 2, 3 :: byte])" by (simp add: can_take_def)
  from send_file_ok [OF o1 o2 t1 n pl ct, of sum_lib]
  obtain s' w' where ok: "send_file sum_lib ?sock ''a'' ?w = Some (Inr True, s', w')" by blast
  from C1_wire_format [OF ok o1 t1 n pl sum_lib_length]
  obtain c2 h nf sf hf where c2: "disk ?w (opens ?w + 1) ''a'' = Some c2"
    and h: "h = lowercase_hex (streaming_hash sum_lib c2)"
    and snt: "sent s' = sent ?sock @ nf @ string_bytes ''a'' @ sf @ [1, 2, 3] @ hf @ string_bytes h"
    and nf: "length nf = 4" "be_nat nf = length ''a''"
    and sf: "length sf = 4" "be_nat sf = length [1, 2, 3 :: byte] mod 2 ^ 32"
    and hf: "length hf = 4" "be_nat hf = length h"
    by blast
  from c2 o2 have "c2 = [1, 2, 3]" by simp
  with h have h': "h = ''06060606060606060606060606060606''" by (simp only: hex_123)
  have "length h = 32"
    unfolding h using streaming_hash_length [OF sum_lib_length, of c2]
    by (simp add: length_lowercase_hex MD5_DIGEST_LENGTH_def)
  with hf have hf': "be_nat hf = 32" by simp
  have "sent s' = nf @ [97] @ sf @ [1, 2, 3] @ hf @
            [48, 54, 48, 54, 48, 54, 48, 54, 48, 54, 48, 54, 48, 54, 48, 54,
             48, 54, 48, 54, 48, 54, 48, 54, 48, 54, 48, 54, 48, 54, 48, 54]"
    unfolding snt h' by (simp add: string_bytes_def)
  moreover have "be_nat nf = 1" using nf by simp
  moreover have "be_nat sf = 3" using sf by simp
  ultimately show ?thesis using ok nf(1) sf(1) hf(1) hf' by blast
qed

text \<open>
  C1 as stated does not hold, for two reasons. The size field has four bytes: for a file
  of \<open>2 ^ 32 + 3\<close> bytes the transfer returns true and the field reads 3. And the size is
  measured before the bytes are read and never compared with them: when \<^verbatim>\<open>tellg()\<close>
  reports 3 and the reads then deliver the five bytes \<open>01 02 03 04 05\<close> (the file grew
  meanwhile), the transfer returns true with a size field of 3 followed by five payload
  bytes, so that a receiver takes \<open>04 05 00 00\<close> for the length of the checksum; and when
  \<^verbatim>\<open>tellg()\<close> reports 0 for a file that holds \<open>01 02 03\<close>, the transfer returns true
  with a size field of 0, no payload, and the checksum of the three bytes.
\<close>

theorem C1_counterexample:
  "map_option (\<lambda>(r, s, w). (r, take 9 (sent s), length (sent s)))
     (send_file sum_lib \<lparr>sent = [], room = None\<rparr> ''a''
       (fresh_world (\<lambda>_. True) (\<lambda>_. Link None) (\<lambda>_ _. Some (replicate 4294967299 0))))
     = Some (Inr True, [0, 0, 0, 1, 97, 0, 0, 0, 3], 9 + 4294967299 + 36)
   \<and> map_option (\<lambda>(r, s, w). (r, sent s))
     (send_file sum_lib \<lparr>sent = [], room = None\<rparr> ''a''
       ((fresh_world (\<lambda>_. True) (\<lambda>_. Link None) (\<lambda>_ _. Some [1, 2, 3, 4, 5]))\<lparr>tell := \<lambda>_ _. 3\<rparr>))
     = Some (Inr True,
         [0, 0, 0, 1, 97, 0, 0, 0, 3, 1, 2, 3, 4, 5, 0, 0, 0, 32,
          48, 102, 48, 102, 48, 102, 48, 102, 48, 102, 48, 102, 48, 102, 48, 102,
          48, 102, 48, 102, 48, 102, 48, 102, 48, 102, 48, 102, 48, 102, 48, 102])
   \<and> map_option (\<lambda>(r, s, w). (r, sent s))
     (send_file sum_lib \<lparr>sent = [], room = None\<rparr> ''a''
       ((fresh_world (\<lambda>_. True) (\<lambda>_. Link None) (\<lambda>_ _. Some [1, 2, 3]))\<lparr>tell := \<lambda>_ _. 0\<rparr>))
     = Some (Inr True,
         [0, 0, 0, 1, 97, 0, 0, 0, 0, 0, 0, 0, 32,
          48, 54, 48, 54, 48, 54, 48, 54, 48, 54, 48, 54, 48, 54, 48, 54,
          48, 54, 48, 54, 48, 54, 48, 54, 48, 54, 48, 54, 48, 54, 48, 54])"
proof -
  let ?sock = "\<lparr>sent = [], room = None\<rparr>"
  let ?c = "replicate 4294967299 0 :: byte list"
  let ?w = "fresh_world (\<lambda>_. True) (\<lambda>_. Link None) (\<lambda>_ _. Some ?c)"
  let ?h = "render_digest (streaming_hash sum_lib ?c)"
  have o1: "disk ?w (opens ?w) ''a'' = Some ?c" by (simp add: fresh_world_def)
  have o2: "disk ?w (opens ?w + 1) ''a'' = Some ?c" by (simp add: fresh_world_def)
  have t1: "tell ?w (opens ?w) ''a'' = int (length ?c)" by (simp add: fresh_world_def)
  have n: "length ?c < 2 ^ 64" by simp
  have pl: "length ''a'' < 2 ^ 32" by simp
  have ct: "can_take ?sock (44 + length ''a'' + length ?c)" by (simp add: can_take_def)
  have sz: "htonl_bytes (of_nat (length ?c)) = [0, 0, 0, 3]" by (simp add: htonl_bytes_def)
  have nm: "htonl_bytes (of_nat (length ''a'')) = [0, 0, 0, 1]" by (simp add: htonl_bytes_def)
  have fr: "frame ''a'' ?c ?h = [0, 0, 0, 1, 97, 0, 0, 0, 3] @ ?c @ htonl_bytes 32 @ string_bytes ?h"
    unfolding frame_def sz nm length_render_digest by (simp add: string_bytes_def)
  have big: "map_option (\<lambda>(r, s, w). (r, take 9 (sent s), length (sent s)))
      (send_file sum_lib ?sock ''a'' ?w) = Some (Inr True, [0, 0, 0, 1, 97, 0, 0, 0, 3], 9 + 4294967299 + 36)"
    unfolding send_file_ok [OF o1 o2 t1 n pl ct, of sum_lib] fr
    by (simp add: advance_def length_htonl length_string_bytes length_render_digest)
  let ?g = "(fresh_world (\<lambda>_. True) (\<lambda>_. Link None) (\<lambda>_ _. Some [1, 2, 3, 4, 5]))\<lparr>tell := \<lambda>_ _. 3\<rparr>"
  have g1: "disk ?g (opens ?g) ''a'' = Some [1, 2, 3, 4, 5]" by (simp add: fresh_world_def)
  have g2: "disk ?g (opens ?g + 1) ''a'' = Some [1, 2, 3, 4, 5]" by (simp add: fresh_world_def)
  have gt: "tell ?g (opens ?g) ''a'' = 3" by simp
  have r: "room ?sock = None" by simp
  have grown: "map_option (\<lambda>(r, s, w). (r, sent s)) (send_file sum_lib ?sock ''a'' ?g)
      = Some (Inr True,
         [0, 0, 0, 1, 97, 0, 0, 0, 3, 1, 2, 3, 4, 5, 0, 0, 0, 32,
          48, 102, 48, 102, 48, 102, 48, 102, 48, 102, 48, 102, 48, 102, 48, 102,
          48, 102, 48, 102, 48, 102, 48, 102, 48, 102, 48, 102, 48, 102, 48, 102])"
    unfolding grown_file_run [OF g1 gt g2 pl r, of sum_lib] digest_12345
    by (simp add: advance_def htonl_bytes_def string_bytes_def)
  let ?u = "(fresh_world (\<lambda>_. True) (\<lambda>_. Link None) (\<lambda>_ _. Some [1, 2, 3]))\<lparr>tell := \<lambda>_ _. 0\<rparr>"
  have u1: "disk ?u (opens ?u) ''a'' = Some [1, 2, 3]" by (simp add: fresh_world_def)
  have u2: "disk ?u (opens ?u + 1) ''a'' = Some [1, 2, 3]" by (simp add: fresh_world_def)
  have ut: "tell ?u (opens ?u) ''a'' = 0" by simp
  have unmeasured: "map_option (\<lambda>(r, s, w). (r, sent s)) (send_file sum_lib ?sock ''a'' ?u)
      = Some (Inr True,
         [0, 0, 0, 1, 97, 0, 0, 0, 0, 0, 0, 0, 32,
          48, 54, 48, 54, 48, 54, 48, 54, 48, 54, 48, 54, 48, 54, 48, 54,
          48, 54, 48, 54, 48, 54, 48, 54, 48, 54, 48, 54, 48, 54, 48, 54])"
    unfolding unmeasured_file_run [OF u1 ut u2 pl r, of sum_lib] digest_123
    by (simp add: advance_def htonl_bytes_def string_bytes_def)
  from big grown unmeasured show ?thesis by blast
qed

text \<open>
  C6. For a file of zero bytes (\<^verbatim>\<open>tellg()\<close> reports 0 and the reads deliver nothing, at
  the second open too), a connection that takes the 44 bytes plus the name and an MD5
  library with digests of 16 bytes, \<^verbatim>\<open>send_file\<close> returns true having written the name
  field, the size field \<open>00 00 00 00\<close> and then at once the checksum field: the length 32
  and the lowercase hexadecimal digest of the empty byte sequence, which is also what
  \<^verbatim>\<open>calculate_md5\<close> yields for this file. No progress line is printed since no chunk is
  written.
\<close>

theorem C6_zero_byte_file:
  assumes o1: "disk w (opens w) p = Some []"
    and o2: "disk w (opens w + 1) p = Some []"
    and t1: "tell w (opens w) p = 0"
    and pl: "length p < 2 ^ 32"
    and ct: "can_take sock (44 + length p)"
    and len: "\<forall>x. length (MD5_Final L x) = MD5_DIGEST_LENGTH"
  shows "send_file L sock p w =
      Some (Inr True,
        advance sock
          (htonl_bytes (of_nat (length p)) @ string_bytes p @ [0, 0, 0, 0] @
           [0, 0, 0, 32] @
           string_bytes (lowercase_hex (MD5_Final L (MD5_Update L (MD5_Init L) [])))),
        w\<lparr>opens := opens w + 2,
          trace := trace w @
            [Endl, CalculatedMD5 (lowercase_hex (MD5_Final L (MD5_Update L (MD5_Init L) []))),
             SentFile p 0 (lowercase_hex (MD5_Final L (MD5_Update L (MD5_Init L) [])))]\<rparr>)
    \<and> be_nat (htonl_bytes (of_nat (length p))) = length p
    \<and> length (lowercase_hex (MD5_Final L (MD5_Update L (MD5_Init L) []))) = 32
    \<and> fst (calculate_md5 L p w) = Inr (lowercase_hex (MD5_Final L (MD5_Update L (MD5_Init L) [])))"
proof -
  have sh: "streaming_hash L [] = MD5_Final L (MD5_Update L (MD5_Init L) [])"
    by (simp add: streaming_hash_def file_chunks_def piece_def CHUNK_SIZE_def)
  have rd: "render_digest (streaming_hash L []) = lowercase_hex (MD5_Final L (MD5_Update L (MD5_Init L) []))"
    using render_streaming_hash [OF len, of "[]"] by (simp only: sh)
  have pe: "progress_events 0 = []"
    by (simp add: progress_events_def rounds_def CHUNK_SIZE_def)
  have z: "htonl_bytes 0 = [0, 0, 0, 0]" by (simp add: htonl_bytes_def)
  have l32: "htonl_bytes 32 = [0, 0, 0, 32]" by (simp add: htonl_bytes_def)
  have ct': "can_take sock (44 + length p + length ([] :: byte list))" using ct by simp
  have t1': "tell w (opens w) p = int (length ([] :: byte list))" using t1 by simp
  have n: "length ([] :: byte list) < 2 ^ 64" by simp
  from send_file_ok [OF o1 o2 t1' n pl ct', of L]
  have "send_file L sock p w =
      Some (Inr True, advance sock (frame p [] (render_digest (streaming_hash L []))),
        w\<lparr>opens := opens w + 2,
          trace := trace w @ progress_events 0 @
            [Endl, CalculatedMD5 (render_digest (streaming_hash L [])),
             SentFile p 0 (render_digest (streaming_hash L []))]\<rparr>)"
    by simp
  then have run: "send_file L sock p w =
      Some (Inr True,
        advance sock
          (htonl_bytes (of_nat (length p)) @ string_bytes p @ [0, 0, 0, 0] @
           [0, 0, 0, 32] @
           string_bytes (lowercase_hex (MD5_Final L (MD5_Update L (MD5_Init L) [])))),
        w\<lparr>opens := opens w + 2,
          trace := trace w @
            [Endl, CalculatedMD5 (lowercase_hex (MD5_Final L (MD5_Update L (MD5_Init L) []))),
             SentFile p 0 (lowercase_hex (MD5_Final L (MD5_Update L (MD5_Init L) [])))]\<rparr>)"
    using length_render_digest [of "streaming_hash L []"]
    by (simp add: rd pe z l32 frame_def)
  have nm: "be_nat (htonl_bytes (of_nat (length p))) = length p"
    using pl by (simp add: be_nat_htonl unat_uint32_of_nat)
  have hl: "length (lowercase_hex (MD5_Final L (MD5_Update L (MD5_Init L) []))) = 32"
    using len by (simp add: length_lowercase_hex MD5_DIGEST_LENGTH_def)
  have md: "fst (calculate_md5 L p w) = Inr (lowercase_hex (MD5_Final L (MD5_Update L (MD5_Init L) [])))"
    using calculate_md5_ok [OF o1, of L] by (simp add: rd)
  from run nm hl md show ?thesis by blast
qed

theorem C6_witness:
  "map_option (\<lambda>(r, s, w). (r, sent s, trace w))
     (send_file ramp_lib \<lparr>sent = [], room = Some 45\<rparr> ''a''
       (fresh_world (\<lambda>_. True) (\<lambda>_. Link None) (\<lambda>_ _. Some [])))
   = Some (Inr True,
       [0, 0, 0, 1, 97, 0, 0, 0, 0, 0, 0, 0, 32,
        97, 98, 98, 99, 99, 100, 100, 101, 101, 102, 48, 48, 49, 49, 50, 50,
        51, 51, 52, 52, 53, 53, 54, 54, 55, 55, 56, 56, 57, 57, 97, 97],
       [Endl, CalculatedMD5 ''abbccddeef00112233445566778899aa'',
        SentFile ''a'' 0 ''abbccddeef00112233445566778899aa''])"
proof -
  let ?w = "fresh_world (\<lambda>_. True) (\<lambda>_. Link None) (\<lambda>_ _. Some [])"
  have o1: "disk ?w (opens ?w) ''a'' = Some []" by (simp add: fresh_world_def)
  have o2: "disk ?w (opens ?w + 1) ''a'' = Some []" by (simp add: fresh_world_def)
  have t1: "tell ?w (opens ?w) ''a'' = 0" by (simp add: fresh_world_def)
  have pl: "length ''a'' < 2 ^ 32" by simp
  have ct: "can_take \<lparr>sent = [], room = Some 45\<rparr> (44 + length ''a'')" by (simp add: can_take_def)
  from C6_zero_byte_file [OF o1 o2 t1 pl ct ramp_lib_length] show ?thesis
    by (simp add: hex_ramp_empty advance_def htonl_bytes_def string_bytes_def fresh_world_def)
qed

text \<open>
  C8, amended. Take a file that does not change while it is sent (\<^verbatim>\<open>tellg()\<close> reports
  the number of bytes the reads then deliver) and a connection that takes the name field,
  the size field and the payload. Then \<^verbatim>\<open>send_file\<close> returns, and what it wrote is the
  name field, then four bytes that read as a big-endian unsigned number give the number
  of payload bytes modulo \<open>2 ^ 32\<close> (the conversion of \<^verbatim>\<open>file_size\<close> to
  \<^verbatim>\<open>uint32_t\<close>), then exactly the payload bytes, and after them nothing but the
  checksum field or a part of it: nothing when the second open fails, otherwise as much
  of the length 32 and the 32 hexadecimal characters as the connection took.
\<close>

theorem C8_size_field:
  assumes o1: "disk w (opens w) p = Some c"
    and t1: "tell w (opens w) p = int (length c)"
    and n: "length c < 2 ^ 64"
    and pl: "length p < 2 ^ 32"
    and ct: "can_take sock (8 + length p + length c)"
    and len: "\<forall>x. length (MD5_Final L x) = MD5_DIGEST_LENGTH"
  shows "\<exists>r s' w' sf tail. send_file L sock p w = Some (r, s', w')
    \<and> sent s' = sent sock @ htonl_bytes (of_nat (length p)) @ string_bytes p @ sf @ c @ tail
    \<and> length sf = 4
    \<and> be_nat sf = length c mod 2 ^ 32
    \<and> (case disk w (opens w + 1) p of
         None \<Rightarrow> tail = []
       | Some c2 \<Rightarrow>
           (\<exists>k. tail = take k ([0, 0, 0, 32] @ string_bytes (lowercase_hex (streaming_hash L c2)))))"
proof -
  let ?sf = "htonl_bytes (of_nat (length c))"
  have fld: "length ?sf = 4 \<and> be_nat ?sf = length c mod 2 ^ 32"
    by (simp add: length_htonl be_nat_htonl unat_of_nat)
  have l32: "htonl_bytes 32 = [0, 0, 0, 32]" by (simp add: htonl_bytes_def)
  from send_file_payload_done [OF o1 t1 n pl ct, of L]
  obtain r s' w' tail where run: "send_file L sock p w = Some (r, s', w')"
    and snt: "sent s' = sent sock @ htonl_bytes (of_nat (length p)) @ string_bytes p @ ?sf @ c @ tail"
    and tl: "(case disk w (opens w + 1) p of
         None \<Rightarrow> tail = []
       | Some c2 \<Rightarrow>
           (\<exists>k. tail = take k (htonl_bytes 32 @ string_bytes (render_digest (streaming_hash L c2)))))"
    by blast
  from tl have "(case disk w (opens w + 1) p of
         None \<Rightarrow> tail = []
       | Some c2 \<Rightarrow>
           (\<exists>k. tail = take k ([0, 0, 0, 32] @ string_bytes (lowercase_hex (streaming_hash L c2)))))"
    by (simp add: l32 render_streaming_hash [OF len] split: option.splits)
  with run snt fld show ?thesis by blast
qed

theorem C8_witness:
  "\<exists>r s' w' sf tail. send_file sum_lib \<lparr>sent = [], room = Some 14\<rparr> ''a''
       (fresh_world (\<lambda>_. True) (\<lambda>_. Link None) (\<lambda>_ _. Some [1, 2, 3])) = Some (r, s', w')
     \<and> sent s' = [0, 0, 0, 1, 97] @ sf @ [1, 2, 3] @ tail
     \<and> length sf = 4 \<and> be_nat sf = 3
     \<and> (\<exists>k. tail = take k ([0, 0, 0, 32] @ string_bytes ''06060606060606060606060606060606''))"
proof -
  let ?w = "fresh_world (\<lambda>_. True) (\<lambda>_. Link None) (\<lambda>_ _. Some [1, 2, 3])"
  let ?sock = "\<lparr>sent = [], room = Some 14\<rparr>"
  have o1: "disk ?w (opens ?w) ''a'' = Some [1, 2, 3]" by (simp add: fresh_world_def)
  have t1: "tell ?w (opens ?w) ''a'' = int (length [1, 2, 3 :: byte])" by (simp add: fresh_world_def)
  have n: "length [1, 2, 3 :: byte] < 2 ^ 64" by simp
  have pl: "length ''a'' < 2 ^ 32" by simp
  have ct: "can_take ?sock (8 + length ''a'' + length [1, 2, 3 :: byte])" by (simp add: can_take_def)
  have o2: "disk ?w (opens ?w + 1) ''a'' = Some [1, 2, 3]" by (simp add: fresh_world_def)
  have nm: "htonl_bytes (of_nat (length ''a'')) @ string_bytes ''a'' = [0, 0, 0, 1, 97]"
    by (simp add: htonl_bytes_def string_bytes_def)
  from C8_size_field [OF o1 t1 n pl ct sum_lib_length] show ?thesis
    unfolding o2 option.case hex_123
    by (simp add: htonl_bytes_def string_bytes_def)
qed

text \<open>
  C8 as stated, for every file, does not hold. When \<^verbatim>\<open>tellg()\<close> reports 3 and the reads
  deliver five bytes, the size field reads 3 and five payload bytes follow it. When the
  connection breaks after one byte of the second chunk of a file of 5000 bytes, the size
  field reads 5000 and 4097 payload bytes follow it. When \<^verbatim>\<open>tellg()\<close> reports 5 and the
  reads deliver three bytes (the file was truncated meanwhile), or when \<^verbatim>\<open>tellg()\<close>
  fails with -1 on a stream that delivers nothing, the loop waits for bytes that never
  come and \<^verbatim>\<open>send_file\<close> does not return.
\<close>

theorem C8_counterexample:
  "map_option (\<lambda>(r, s, w). (r, take 5 (sent s), be_nat (take 4 (drop 5 (sent s))), take 5 (drop 9 (sent s)),
        take 4 (drop 14 (sent s))))
     (send_file sum_lib \<lparr>sent = [], room = None\<rparr> ''a''
       ((fresh_world (\<lambda>_. True) (\<lambda>_. Link None) (\<lambda>_ _. Some [1, 2, 3, 4, 5]))\<lparr>tell := \<lambda>_ _. 3\<rparr>))
     = Some (Inr True, [0, 0, 0, 1, 97], 3, [1, 2, 3, 4, 5], [0, 0, 0, 32])
   \<and> map_option (\<lambda>(r, s, w). (r, take 5 (sent s), be_nat (take 4 (drop 5 (sent s))), length (drop 9 (sent s))))
     (send_file sum_lib \<lparr>sent = [], room = Some 4106\<rparr> ''a''
       (fresh_world (\<lambda>_. True) (\<lambda>_. Link None) (\<lambda>_ _. Some (replicate 5000 7))))
     = Some (Inr False, [0, 0, 0, 1, 97], 5000, 4097)
   \<and> send_file sum_lib \<lparr>sent = [], room = None\<rparr> ''a''
       ((fresh_world (\<lambda>_. True) (\<lambda>_. Link None) (\<lambda>_ _. Some [1, 2, 3]))\<lparr>tell := \<lambda>_ _. 5\<rparr>) = None
   \<and> send_file sum_lib \<lparr>sent = [], room = None\<rparr> ''a''
       ((fresh_world (\<lambda>_. True) (\<lambda>_. Link None) (\<lambda>_ _. Some []))\<lparr>tell := \<lambda>_ _. - 1\<rparr>) = None"
proof -
  let ?sock = "\<lparr>sent = [], room = None\<rparr>"
  have pl: "length ''a'' < 2 ^ 32" by simp
  have r: "room ?sock = None" by simp
  let ?g = "(fresh_world (\<lambda>_. True) (\<lambda>_. Link None) (\<lambda>_ _. Some [1, 2, 3, 4, 5]))\<lparr>tell := \<lambda>_ _. 3\<rparr>"
  have g1: "disk ?g (opens ?g) ''a'' = Some [1, 2, 3, 4, 5]" by (simp add: fresh_world_def)
  have g2: "disk ?g (opens ?g + 1) ''a'' = Some [1, 2, 3, 4, 5]" by (simp add: fresh_world_def)
  have gt: "tell ?g (opens ?g) ''a'' = 3" by simp
  have grown: "map_option (\<lambda>(r, s, w). (r, take 5 (sent s), be_nat (take 4 (drop 5 (sent s))),
        take 5 (drop 9 (sent s)), take 4 (drop 14 (sent s))))
      (send_file sum_lib ?sock ''a'' ?g)
      = Some (Inr True, [0, 0, 0, 1, 97], 3, [1, 2, 3, 4, 5], [0, 0, 0, 32])"
    unfolding grown_file_run [OF g1 gt g2 pl r, of sum_lib]
    by (simp add: advance_def htonl_bytes_def string_bytes_def be_nat_def)
  let ?b = "fresh_world (\<lambda>_. True) (\<lambda>_. Link None) (\<lambda>_ _. Some (replicate 5000 7))"
  have b1: "disk ?b (opens ?b) ''a'' = Some (replicate 5000 7)" by (simp add: fresh_world_def)
  have bt: "tell ?b (opens ?b) ''a'' = 5000" by (simp add: fresh_world_def)
  from broken_link_run [OF b1 bt, of sum_lib]
  have broken: "map_option (\<lambda>(r, s, w). (r, take 5 (sent s), be_nat (take 4 (drop 5 (sent s))),
        length (drop 9 (sent s))))
      (send_file sum_lib \<lparr>sent = [], room = Some 4106\<rparr> ''a'' ?b)
      = Some (Inr False, [0, 0, 0, 1, 97], 5000, 4097)"
    by (auto simp: be_nat_def)
  let ?t = "(fresh_world (\<lambda>_. True) (\<lambda>_. Link None) (\<lambda>_ _. Some [1, 2, 3]))\<lparr>tell := \<lambda>_ _. 5\<rparr>"
  have t1: "disk ?t (opens ?t) ''a'' = Some [1, 2, 3]" by (simp add: fresh_world_def)
  have tt: "tell ?t (opens ?t) ''a'' = 5" by simp
  have trunc: "send_file sum_lib ?sock ''a'' ?t = None"
    by (rule truncated_file_run [OF t1 tt pl r])
  let ?e = "(fresh_world (\<lambda>_. True) (\<lambda>_. Link None) (\<lambda>_ _. Some []))\<lparr>tell := \<lambda>_ _. - 1\<rparr>"
  have e1: "disk ?e (opens ?e) ''a'' = Some []" by (simp add: fresh_world_def)
  have et: "(of_int (tell ?e (opens ?e) ''a'') :: size_t) \<noteq> 0" by simp
  have ect: "can_take ?sock (8 + length ''a'')" by (simp add: can_take_def)
  have failed: "send_file sum_lib ?sock ''a'' ?e = None"
    by (rule send_file_starved [OF e1 et pl ect])
  from grown broken trunc failed show ?thesis by blast
qed

subsection \<open>Progress values\<close>

lemma progress_of_map: "progress_of (map (\<lambda>k. Progress (g k)) ks) = map g ks"
  by (induction ks) simp_all

lemma progress_of_events:
  "progress_of (progress_events n)
     = map (\<lambda>k. 100 * of_nat (bytes_sent_after n k) div of_nat n) [1..<Suc (rounds n)]"
  unfolding progress_events_def by (rule progress_of_map)

lemma percent_word:
  assumes "b \<le> n" "100 * n < 2 ^ 64"
  shows "(100 * of_nat b div of_nat n :: size_t) = of_nat (100 * b div n)"
proof -
  have b: "100 * b < 2 ^ 64" using assms by simp
  have "unat (100 * of_nat b :: size_t) = 100 * b"
    using b by (simp add: unat_word_ariths unat_of_nat)
  moreover have "unat (of_nat n :: size_t) = n"
    using assms(2) by (simp add: unat_of_nat)
  ultimately have "unat (100 * of_nat b div of_nat n :: size_t) = 100 * b div n"
    by (simp add: unat_div_distrib)
  then have "of_nat (unat (100 * of_nat b div of_nat n :: size_t)) = (of_nat (100 * b div n) :: size_t)"
    by simp
  then show ?thesis by simp
qed

lemma bytes_sent_after_le: "bytes_sent_after n k \<le> n"
  by (simp add: bytes_sent_after_def)

lemma bytes_sent_after_mono: "j \<le> k \<Longrightarrow> bytes_sent_after n j \<le> bytes_sent_after n k"
  by (simp add: bytes_sent_after_def min_le_iff_disj)

lemma bytes_sent_after_rounds: "bytes_sent_after n (rounds n) = n"
  using rounds_le [of n "rounds n"] by (simp add: bytes_sent_after_def)

lemma rounds_pos: "0 < n \<Longrightarrow> 0 < rounds n"
  using rounds_le [of n 0] by (cases "rounds n") auto

lemma percent_le_100: "0 < n \<Longrightarrow> 100 * bytes_sent_after n k div n \<le> 100"
proof -
  assume "0 < n"
  have "100 * bytes_sent_after n k \<le> 100 * n" using bytes_sent_after_le by simp
  then have "100 * bytes_sent_after n k div n \<le> 100 * n div n" by (rule div_le_mono)
  with \<open>0 < n\<close> show ?thesis by simp
qed

lemma percent_100_iff:
  fixes b n :: nat
  assumes "0 < n" "b \<le> n"
  shows "100 * b div n = 100 \<longleftrightarrow> b = n"
proof
  assume "100 * b div n = 100"
  then have "100 * n \<le> 100 * b"
    using div_times_less_eq_dividend [of "100 * b" n] by simp
  with assms(2) show "b = n" by simp
next
  assume "b = n" with assms(1) show "100 * b div n = 100" by simp
qed


lemma of_nat_percent_mono:
  assumes "0 < n" "j \<le> k"
  shows "(of_nat (100 * bytes_sent_after n j div n) :: size_t) \<le> of_nat (100 * bytes_sent_after n k div n)"
proof -
  have "100 * bytes_sent_after n j div n \<le> 100 * bytes_sent_after n k div n"
    using bytes_sent_after_mono [OF assms(2), of n] by (simp add: div_le_mono)
  moreover have "100 * bytes_sent_after n k div n < 2 ^ 64"
    using percent_le_100 [OF assms(1), of k] by simp
  moreover have "100 * bytes_sent_after n j div n < 2 ^ 64"
    using percent_le_100 [OF assms(1), of j] by simp
  ultimately show ?thesis
    by (simp add: word_le_nat_alt unat_of_nat)
qed

lemma list_of_percent:
  assumes "100 * n < 2 ^ 64"
  shows "map (\<lambda>k. (100 * of_nat (bytes_sent_after n k) div of_nat n :: size_t)) ks
    = map (\<lambda>k. of_nat (100 * bytes_sent_after n k div n)) ks"
  using percent_word [OF bytes_sent_after_le assms] by simp

lemma last_progress_events:
  assumes "0 < n"
  shows "last (progress_of (progress_events n)) = 100 * of_nat n div of_nat n"
proof -
  let ?g = "\<lambda>k. (100 * of_nat (bytes_sent_after n k) div of_nat n :: size_t)"
  have "0 < rounds n" using assms by (rule rounds_pos)
  then have "[1..<Suc (rounds n)] = [1..<rounds n] @ [rounds n]" by simp
  then have "last (map ?g [1..<Suc (rounds n)]) = ?g (rounds n)" by simp
  then show ?thesis by (simp only: progress_of_events bytes_sent_after_rounds)
qed

text \<open>
  C7, amended. Take a non-empty file of fewer than \<open>2 ^ 64 / 100\<close> bytes (so that
  \<open>100 * total_bytes_sent\<close> fits \<^verbatim>\<open>size_t\<close>) that does not change while it is sent
  (\<^verbatim>\<open>tellg()\<close> reports the number of bytes the reads then deliver), and a connection that
  takes the name field, the size field and the payload. Then \<^verbatim>\<open>send_file\<close> returns,
  whatever becomes of the checksum, and the progress values it printed, one after each
  chunk write, are \<open>100 * bytes_sent div file_size\<close> at each step, never decrease, end
  with exactly 100, and are 100 only at a step where all bytes have been sent.
\<close>

theorem C7_progress:
  assumes o1: "disk w (opens w) p = Some c"
    and t1: "tell w (opens w) p = int (length c)"
    and ne: "c \<noteq> []"
    and bound: "100 * length c < 2 ^ 64"
    and pl: "length p < 2 ^ 32"
    and ct: "can_take sock (8 + length p + length c)"
  shows "\<exists>r s' w'. send_file L sock p w = Some (r, s', w')
    \<and> progress_of (drop (length (trace w)) (trace w'))
      = map (\<lambda>k. of_nat (100 * bytes_sent_after (length c) k div length c)) [1..<Suc (rounds (length c))]
    \<and> sorted (progress_of (drop (length (trace w)) (trace w')))
    \<and> last (progress_of (drop (length (trace w)) (trace w'))) = 100
    \<and> (\<forall>i < rounds (length c). progress_of (drop (length (trace w)) (trace w')) ! i = 100
          \<longrightarrow> bytes_sent_after (length c) (Suc i) = length c)"
proof -
  let ?n = "length c"
  let ?f = "\<lambda>k. (of_nat (100 * bytes_sent_after ?n k div ?n) :: size_t)"
  have pos: "0 < ?n" using ne by simp
  have n: "?n < 2 ^ 64" using bound by simp
  from send_file_payload_done [OF o1 t1 n pl ct, of L]
  obtain r s' w' es where run: "send_file L sock p w = Some (r, s', w')"
    and tr: "trace w' = trace w @ progress_events ?n @ es"
    and es: "progress_of es = []"
    by blast
  from tr es have "progress_of (drop (length (trace w)) (trace w')) = progress_of (progress_events ?n)"
    by (simp add: progress_of_append)
  then have ps: "progress_of (drop (length (trace w)) (trace w')) = map ?f [1..<Suc (rounds ?n)]"
    by (simp only: progress_of_events list_of_percent [OF bound])
  have "sorted [1..<Suc (rounds ?n)]" by (rule sorted_upt)
  then have "sorted_wrt (\<lambda>j k. ?f j \<le> ?f k) [1..<Suc (rounds ?n)]"
    by (rule sorted_wrt_mono_rel [rotated]) (erule of_nat_percent_mono [OF pos])
  then have srt: "sorted (map ?f [1..<Suc (rounds ?n)])"
    by (simp only: sorted_map)
  have r: "0 < rounds ?n" using pos by (rule rounds_pos)
  then have "[1..<Suc (rounds ?n)] = [1..<rounds ?n] @ [rounds ?n]" by simp
  then have "last (map ?f [1..<Suc (rounds ?n)]) = ?f (rounds ?n)" by simp
  also have "\<dots> = 100" using pos by (simp add: bytes_sent_after_rounds)
  finally have lst: "last (map ?f [1..<Suc (rounds ?n)]) = 100" .
  have only: "map ?f [1..<Suc (rounds ?n)] ! i = 100 \<longrightarrow> bytes_sent_after ?n (Suc i) = ?n"
    if "i < rounds ?n" for i
  proof
    assume a: "map ?f [1..<Suc (rounds ?n)] ! i = 100"
    have "map ?f [1..<Suc (rounds ?n)] ! i = ?f (1 + i)"
      by (rule nth_map_upt) (use that in simp)
    with a have "?f (Suc i) = 100" by simp
    then have "unat (?f (Suc i)) = 100" by simp
    moreover have "100 * bytes_sent_after ?n (Suc i) div ?n < 2 ^ 64"
      using percent_le_100 [OF pos, of "Suc i"] by simp
    ultimately have "100 * bytes_sent_after ?n (Suc i) div ?n = 100"
      by (simp add: unat_of_nat)
    then show "bytes_sent_after ?n (Suc i) = ?n"
      using percent_100_iff [OF pos bytes_sent_after_le] by blast
  qed
  have "progress_of (drop (length (trace w)) (trace w')) = map ?f [1..<Suc (rounds ?n)]
    \<and> sorted (progress_of (drop (length (trace w)) (trace w')))
    \<and> last (progress_of (drop (length (trace w)) (trace w'))) = 100
    \<and> (\<forall>i < rounds ?n. progress_of (drop (length (trace w)) (trace w')) ! i = 100
          \<longrightarrow> bytes_sent_after ?n (Suc i) = ?n)"
    unfolding ps using srt lst only by blast
  with run show ?thesis by blast
qed

theorem C7_witness:
  "\<exists>r s' w'. send_file sum_lib \<lparr>sent = [], room = Some 5009\<rparr> ''a''
       (fresh_world (\<lambda>_. True) (\<lambda>_. Link None) (\<lambda>_ _. Some (replicate 5000 7))) = Some (r, s', w')
     \<and> progress_of (trace w') = [81, 100]"
proof -
  let ?c = "replicate 5000 7 :: byte list"
  let ?w = "fresh_world (\<lambda>_. True) (\<lambda>_. Link None) (\<lambda>_ _. Some ?c)"
  let ?sock = "\<lparr>sent = [], room = Some 5009\<rparr>"
  have o1: "disk ?w (opens ?w) ''a'' = Some ?c" by (simp add: fresh_world_def)
  have t1: "tell ?w (opens ?w) ''a'' = int (length ?c)" by (simp add: fresh_world_def)
  have ne: "?c \<noteq> []" by simp
  have bound: "100 * length ?c < 2 ^ 64" by simp
  have pl: "length ''a'' < 2 ^ 32" by simp
  have ct: "can_take ?sock (8 + length ''a'' + length ?c)" by (simp add: can_take_def)
  have r: "rounds 5000 = 2" by (simp add: rounds_def CHUNK_SIZE_def)
  from C7_progress [OF o1 t1 ne bound pl ct, of sum_lib]
  obtain r s' w' where run: "send_file sum_lib ?sock ''a'' ?w = Some (r, s', w')"
    and "progress_of (drop (length (trace ?w)) (trace w'))
      = map (\<lambda>k. of_nat (100 * bytes_sent_after (length ?c) k div length ?c)) [1..<Suc (rounds (length ?c))]"
    by blast
  then have "progress_of (trace w') = [81, 100]"
    by (simp add: fresh_world_def r bytes_sent_after_def CHUNK_SIZE_def upt_rec)
  with run show ?thesis by blast
qed

text \<open>
  C7 as stated, for every non-empty file, does not hold, for three reasons. The product
  \<open>100 * total_bytes_sent\<close> is computed in \<^verbatim>\<open>size_t\<close>: for a file of \<open>2 ^ 62\<close> bytes the
  transfer returns true and the last progress value printed is 0. The percentage is
  taken of the size measured before the bytes are read: when \<^verbatim>\<open>tellg()\<close> reports 3 and
  the reads deliver five bytes, the one value printed is \<open>100 * 5 div 3 = 166\<close>. And when
  the connection breaks after one byte of the second chunk of a file of 5000 bytes, the
  one value printed is 81.
\<close>

theorem C7_counterexample:
  "map_option (\<lambda>(r, s, w). (r, last (progress_of (trace w))))
     (send_file sum_lib \<lparr>sent = [], room = None\<rparr> ''a''
       (fresh_world (\<lambda>_. True) (\<lambda>_. Link None) (\<lambda>_ _. Some (replicate 4611686018427387904 0))))
     = Some (Inr True, 0)
   \<and> map_option (\<lambda>(r, s, w). (r, progress_of (trace w)))
     (send_file sum_lib \<lparr>sent = [], room = None\<rparr> ''a''
       ((fresh_world (\<lambda>_. True) (\<lambda>_. Link None) (\<lambda>_ _. Some [1, 2, 3, 4, 5]))\<lparr>tell := \<lambda>_ _. 3\<rparr>))
     = Some (Inr True, [166])
   \<and> map_option (\<lambda>(r, s, w). (r, progress_of (trace w)))
     (send_file sum_lib \<lparr>sent = [], room = Some 4106\<rparr> ''a''
       (fresh_world (\<lambda>_. True) (\<lambda>_. Link None) (\<lambda>_ _. Some (replicate 5000 7))))
     = Some (Inr False, [81])"
proof -
  let ?c = "replicate 4611686018427387904 0 :: byte list"
  let ?w = "fresh_world (\<lambda>_. True) (\<lambda>_. Link None) (\<lambda>_ _. Some ?c)"
  let ?sock = "\<lparr>sent = [], room = None\<rparr>"
  let ?h = "render_digest (streaming_hash sum_lib ?c)"
  have o1: "disk ?w (opens ?w) ''a'' = Some ?c" by (simp add: fresh_world_def)
  have o2: "disk ?w (opens ?w + 1) ''a'' = Some ?c" by (simp add: fresh_world_def)
  have t1: "tell ?w (opens ?w) ''a'' = int (length ?c)" by (simp add: fresh_world_def)
  have n: "length ?c < 2 ^ 64" by simp
  have pl: "length ''a'' < 2 ^ 32" by simp
  have ct: "can_take ?sock (44 + length ''a'' + length ?c)" by (simp add: can_take_def)
  have tr: "trace ?w = []" by (simp add: fresh_world_def)
  have pe: "progress_of (progress_events (length ?c)) \<noteq> []"
    by (simp add: progress_of_events rounds_def CHUNK_SIZE_def)
  have "last (progress_of (progress_events (length ?c))) = 100 * of_nat (length ?c) div of_nat (length ?c)"
    by (rule last_progress_events) simp
  also have "\<dots> = 0" by simp
  finally have l: "last (progress_of (progress_events (length ?c))) = 0" .
  let ?T = "trace ?w @ progress_events (length ?c) @
      [Endl, CalculatedMD5 ?h, SentFile ''a'' (of_nat (length ?c)) ?h]"
  have z: "last (progress_of ?T) = 0"
    using pe l by (simp add: tr progress_of_append)
  have tw: "trace (?w\<lparr>opens := opens ?w + 2, trace := ?T\<rparr>) = ?T" by simp
  have wrap: "map_option (\<lambda>(r, s, w). (r, last (progress_of (trace w))))
      (send_file sum_lib ?sock ''a'' ?w) = Some (Inr True, 0)"
    by (simp only: send_file_ok [OF o1 o2 t1 n pl ct, of sum_lib] option.map prod.case tw z)
  have r: "room ?sock = None" by simp
  let ?g = "(fresh_world (\<lambda>_. True) (\<lambda>_. Link None) (\<lambda>_ _. Some [1, 2, 3, 4, 5]))\<lparr>tell := \<lambda>_ _. 3\<rparr>"
  have g1: "disk ?g (opens ?g) ''a'' = Some [1, 2, 3, 4, 5]" by (simp add: fresh_world_def)
  have g2: "disk ?g (opens ?g + 1) ''a'' = Some [1, 2, 3, 4, 5]" by (simp add: fresh_world_def)
  have gt: "tell ?g (opens ?g) ''a'' = 3" by simp
  have grown: "map_option (\<lambda>(r, s, w). (r, progress_of (trace w))) (send_file sum_lib ?sock ''a'' ?g)
      = Some (Inr True, [166])"
    unfolding grown_file_run [OF g1 gt g2 pl r, of sum_lib]
    by (simp add: fresh_world_def)
  let ?b = "fresh_world (\<lambda>_. True) (\<lambda>_. Link None) (\<lambda>_ _. Some (replicate 5000 7))"
  have b1: "disk ?b (opens ?b) ''a'' = Some (replicate 5000 7)" by (simp add: fresh_world_def)
  have bt: "tell ?b (opens ?b) ''a'' = 5000" by (simp add: fresh_world_def)
  from broken_link_run [OF b1 bt, of sum_lib]
  have broken: "map_option (\<lambda>(r, s, w). (r, progress_of (trace w)))
      (send_file sum_lib \<lparr>sent = [], room = Some 4106\<rparr> ''a'' ?b) = Some (Inr False, [81])"
    by (auto simp: fresh_world_def)
  from wrap grown broken show ?thesis by blast
qed

section \<open>Properties of calculate\_md5\<close>

lemma concat_pieces: "concat (map (piece c) [0..<m]) = take (m * CHUNK_SIZE) c"
proof (induction m)
  case 0
  show ?case by simp
next
  case (Suc m)
  have "take (m * CHUNK_SIZE) c @ piece c m = take (m * CHUNK_SIZE + CHUNK_SIZE) c"
    unfolding piece_def by (simp add: take_add)
  with Suc show ?case by (simp add: add.commute)
qed

lemma concat_file_chunks: "concat (file_chunks c) = c"
proof -
  have "length c < Suc (length c div CHUNK_SIZE) * CHUNK_SIZE"
    using CHUNK_SIZE_pos by (metis dividend_less_times_div mult.commute mult_Suc)
  then show ?thesis
    unfolding file_chunks_def concat_pieces by simp
qed

lemma butlast_file_chunks: "butlast (file_chunks c) = map (piece c) [0..<length c div CHUNK_SIZE]"
  by (simp add: file_chunks_def)

lemma last_file_chunks: "last (file_chunks c) = piece c (length c div CHUNK_SIZE)"
  by (simp add: file_chunks_def)

lemma foldl_update_concat:
  assumes "\<forall>ctx a b. MD5_Update L (MD5_Update L ctx a) b = MD5_Update L ctx (a @ b)"
  shows "foldl (MD5_Update L) (MD5_Update L ctx x) xs = MD5_Update L ctx (x @ concat xs)"
  using assms by (induction xs arbitrary: x) simp_all

lemma streaming_hash_one_shot:
  assumes "\<forall>ctx a b. MD5_Update L (MD5_Update L ctx a) b = MD5_Update L ctx (a @ b)"
  shows "streaming_hash L c = MD5_Final L (MD5_Update L (MD5_Init L) c)"
proof -
  obtain x xs where fc: "file_chunks c = x # xs"
    by (cases "file_chunks c") (simp_all add: file_chunks_def)
  have "foldl (MD5_Update L) (MD5_Init L) (file_chunks c) = MD5_Update L (MD5_Init L) (concat (file_chunks c))"
    unfolding fc using foldl_update_concat [OF assms, of "MD5_Init L" x xs] by simp
  then show ?thesis by (simp add: streaming_hash_def concat_file_chunks)
qed

lemma digest_5000:
  "streaming_hash sum_lib (replicate 5000 1) = replicate 16 136"
  by (simp add: streaming_hash_def sum_lib_def file_chunks_def piece_def CHUNK_SIZE_def upt_rec
      sum_list_replicate)

text \<open>
  C2. For a readable file with content \<open>c\<close>, \<^verbatim>\<open>calculate_md5\<close> returns the lowercase
  hexadecimal rendering, two characters per digest byte, of the streaming hash of \<open>c\<close>:
  the library's context after it was fed the pieces \<open>file_chunks c\<close>, which put together
  are exactly \<open>c\<close>, every piece but the last being a full \<open>CHUNK_SIZE\<close> block and the last
  one holding the \<open>length c mod CHUNK_SIZE\<close> bytes that were actually read, not the whole
  buffer. The result depends on the content only, so computing it again on the unmodified
  file gives the same string; and when the library's \<^verbatim>\<open>MD5_Update\<close> composes, it is the
  hash of \<open>c\<close> fed in one piece. The library writes \<open>MD5_DIGEST_LENGTH\<close> digest bytes.
\<close>

theorem C2_digest:
  assumes o: "disk w (opens w) p = Some c"
    and len: "\<forall>x. length (MD5_Final L x) = MD5_DIGEST_LENGTH"
  shows "fst (calculate_md5 L p w) = Inr (lowercase_hex (streaming_hash L c))
    \<and> length (lowercase_hex (streaming_hash L c)) = 2 * length (streaming_hash L c)
    \<and> concat (file_chunks c) = c
    \<and> (\<forall>x \<in> set (butlast (file_chunks c)). length x = CHUNK_SIZE)
    \<and> length (last (file_chunks c)) = length c mod CHUNK_SIZE
    \<and> (\<forall>w2. disk w2 (opens w2) p = Some c \<longrightarrow> fst (calculate_md5 L p w2) = fst (calculate_md5 L p w))
    \<and> ((\<forall>ctx a b. MD5_Update L (MD5_Update L ctx a) b = MD5_Update L ctx (a @ b))
         \<longrightarrow> streaming_hash L c = MD5_Final L (MD5_Update L (MD5_Init L) c))"
proof -
  have l16: "length (streaming_hash L c) = MD5_DIGEST_LENGTH"
    using len by (simp add: streaming_hash_def)
  have 1: "fst (calculate_md5 L p w) = Inr (lowercase_hex (streaming_hash L c))"
    using calculate_md5_ok [OF o, of L] render_digest_lowercase_hex [OF l16] by simp
  have 4: "\<forall>x \<in> set (butlast (file_chunks c)). length x = CHUNK_SIZE"
    unfolding butlast_file_chunks by (auto simp: length_piece_full)
  have 5: "length (last (file_chunks c)) = length c mod CHUNK_SIZE"
    unfolding last_file_chunks by (rule length_piece_last)
  have 6: "\<forall>w2. disk w2 (opens w2) p = Some c \<longrightarrow> fst (calculate_md5 L p w2) = fst (calculate_md5 L p w)"
    using calculate_md5_ok [of _ p c L] o by simp
  show ?thesis
    using 1 4 5 6 length_lowercase_hex concat_file_chunks streaming_hash_one_shot by blast
qed

theorem C2_witness:
  "fst (calculate_md5 sum_lib ''a''
      (fresh_world (\<lambda>_. True) (\<lambda>_. Link None) (\<lambda>_ _. Some (replicate 5000 1))))
     = Inr ''88888888888888888888888888888888''
   \<and> map length (file_chunks (replicate 5000 (1 :: byte))) = [4096, 904]
   \<and> streaming_hash sum_lib (replicate 5000 1)
       = MD5_Final sum_lib (MD5_Update sum_lib (MD5_Init sum_lib) (replicate 5000 1))"
proof -
  let ?c = "replicate 5000 1 :: byte list"
  let ?w = "fresh_world (\<lambda>_. True) (\<lambda>_. Link None) (\<lambda>_ _. Some ?c)"
  have o: "disk ?w (opens ?w) ''a'' = Some ?c" by (simp add: fresh_world_def)
  have len: "\<forall>x. length (MD5_Final sum_lib x) = MD5_DIGEST_LENGTH"
    by (simp add: sum_lib_def MD5_DIGEST_LENGTH_def)
  have law: "\<forall>ctx a b. MD5_Update sum_lib (MD5_Update sum_lib ctx a) b = MD5_Update sum_lib ctx (a @ b)"
    by (simp add: sum_lib_def)
  have hx: "lowercase_hex (replicate 16 136) = ''88888888888888888888888888888888''"
    unfolding render_digest_lowercase_hex [symmetric, of "replicate 16 136", unfolded MD5_DIGEST_LENGTH_def, simplified]
    by (simp add: render_digest_def MD5_DIGEST_LENGTH_def snprintf_02x_def hex_digit_def upt_rec)
  have ch: "map length (file_chunks ?c) = [4096, 904]"
    by (simp add: file_chunks_def piece_def CHUNK_SIZE_def upt_rec)
  from C2_digest [OF o len] law
  have "fst (calculate_md5 sum_lib ''a'' ?w) = Inr (lowercase_hex (streaming_hash sum_lib ?c))"
    and "streaming_hash sum_lib ?c = MD5_Final sum_lib (MD5_Update sum_lib (MD5_Init sum_lib) ?c)"
    by blast+
  then show ?thesis using ch by (simp only: digest_5000 hx)
qed

section \<open>Properties of manage\_connection and main\<close>

subsection \<open>One round of the retry loop\<close>

lemma asio_connect_refused:
  "net w (connects w) = Refused \<Longrightarrow>
   asio_connect w = (None, w\<lparr>connects := connects w + 1, trace := trace w @ [Connect]\<rparr>)"
  by (simp add: asio_connect_def emit_def)

lemma asio_connect_link:
  "net w (connects w) = Link r \<Longrightarrow>
   asio_connect w = (Some \<lparr>sent = [], room = r\<rparr>,
     w\<lparr>connects := connects w + 1, trace := trace w @ [Connect]\<rparr>)"
  by (simp add: asio_connect_def emit_def)

lemma retry_exhausted:
  "\<not> rc < MAX_RETRIES \<Longrightarrow> retry_loop L p rc w = Some (Inr (), emit w FailedAfterRetries)"
  by (subst retry_loop.simps) simp

lemma retry_connect_refused:
  assumes "rc < MAX_RETRIES" "net w (connects w) = Refused"
  shows "retry_loop L p rc w = retry_loop L p (rc + 1)
    (w\<lparr>connects := connects w + 1,
       trace := trace w @ [Connect, ConnectionError (rc + 1), Sleep RETRY_INTERVAL]\<rparr>)"
  apply (subst retry_loop.simps)
  apply (simp only: assms(1) if_True asio_connect_refused [OF assms(2)] prod.case option.case)
  apply (simp add: emit_def)
  done

lemma retry_send:
  assumes "rc < MAX_RETRIES" "net w (connects w) = Link r"
    and "send_file L \<lparr>sent = [], room = r\<rparr> p
           (w\<lparr>connects := connects w + 1, trace := trace w @ [Connect]\<rparr>) = Some (res, s', w2)"
  shows "retry_loop L p rc w =
    (case res of
       Inr ok \<Rightarrow> if ok then Some (Inr (), close_socket w2 s')
                else retry_loop L p rc (close_socket w2 s')
     | Inl system_error \<Rightarrow> retry_loop L p (rc + 1)
         (emit (emit (close_socket w2 s') (ConnectionError (rc + 1))) (Sleep RETRY_INTERVAL))
     | Inl runtime_error \<Rightarrow> Some (Inl runtime_error, close_socket w2 s'))"
  apply (subst retry_loop.simps)
  apply (simp only: assms(1) if_True asio_connect_link [OF assms(2)] prod.case option.case assms(3))
  done

lemma resolve_ok:
  "dns w (resolves w) \<Longrightarrow>
   manage_connection L p w = retry_loop L p 0 (w\<lparr>resolves := resolves w + 1, trace := trace w @ [Resolve]\<rparr>)"
  by (simp add: manage_connection_def resolver_resolve_def emit_def)

lemma resolve_fail:
  "\<not> dns w (resolves w) \<Longrightarrow>
   manage_connection L p w = Some (Inl system_error, w\<lparr>resolves := resolves w + 1, trace := trace w @ [Resolve]\<rparr>)"
  by (simp add: manage_connection_def resolver_resolve_def emit_def)

lemma send_file_open_fail:
  "disk w (opens w) p = None \<Longrightarrow>
   send_file L sock p w = Some (Inr False, sock, emit (w\<lparr>opens := opens w + 1\<rparr>) (FailedToOpen p))"
  by (simp add: send_file_def ifstream_open_def)

lemma retry_open_fails:
  assumes rc: "rc < MAX_RETRIES"
    and l: "net w (connects w) = Link r"
    and o: "disk w (opens w) p = None"
  shows "retry_loop L p rc w = retry_loop L p rc
    (w\<lparr>connects := connects w + 1, opens := opens w + 1,
       trace := trace w @ [Connect, FailedToOpen p], wires := wires w @ [[]]\<rparr>)"
proof -
  let ?w1 = "w\<lparr>connects := connects w + 1, trace := trace w @ [Connect]\<rparr>"
  have "disk ?w1 (opens ?w1) p = None" using o by simp
  from send_file_open_fail [OF this, of L "\<lparr>sent = [], room = r\<rparr>"]
  have sf: "send_file L \<lparr>sent = [], room = r\<rparr> p ?w1
      = Some (Inr False, \<lparr>sent = [], room = r\<rparr>, emit (?w1\<lparr>opens := opens ?w1 + 1\<rparr>) (FailedToOpen p))" .
  show ?thesis
    unfolding retry_send [OF rc l sf]
    by (simp add: close_socket_def emit_def)
qed


lemma retry_never_returns:
  assumes "retry_loop L p rc w = Some y"
  shows "\<not> ((\<forall>k. disk w k p = None) \<and> (\<forall>k. net w k \<noteq> Refused) \<and> rc < MAX_RETRIES)"
  using assms
proof (rule retry_loop.raw_induct [rotated, where P = "\<lambda>L p rc w y.
    \<not> ((\<forall>k. disk w k p = None) \<and> (\<forall>k. net w k \<noteq> Refused) \<and> rc < MAX_RETRIES)"])
  fix f :: "'a md5_lib \<Rightarrow> path \<Rightarrow> int \<Rightarrow> world \<Rightarrow> ((exn + unit) \<times> world) option"
    and L p rc w y
  assume IH: "\<And>L p rc w y. f L p rc w = Some y \<Longrightarrow>
      \<not> ((\<forall>k. disk w k p = None) \<and> (\<forall>k. net w k \<noteq> Refused) \<and> rc < MAX_RETRIES)"
    and body: "(if rc < MAX_RETRIES then
        (case asio_connect w of
           (None, w1) \<Rightarrow>
             f L p (rc + 1) (emit (emit w1 (ConnectionError (rc + 1))) (Sleep RETRY_INTERVAL))
         | (Some sock, w1) \<Rightarrow>
             (case send_file L sock p w1 of
                None \<Rightarrow> None
              | Some (Inl system_error, sock', w2) \<Rightarrow>
                  f L p (rc + 1)
                    (emit (emit (close_socket w2 sock') (ConnectionError (rc + 1)))
                       (Sleep RETRY_INTERVAL))
              | Some (Inl runtime_error, sock', w2) \<Rightarrow>
                  Some (Inl runtime_error, close_socket w2 sock')
              | Some (Inr ok, sock', w2) \<Rightarrow>
                  if ok then Some (Inr (), close_socket w2 sock')
                  else f L p rc (close_socket w2 sock')))
      else Some (Inr (), emit w FailedAfterRetries)) = Some y"
  show "\<not> ((\<forall>k. disk w k p = None) \<and> (\<forall>k. net w k \<noteq> Refused) \<and> rc < MAX_RETRIES)"
  proof
    assume inv: "(\<forall>k. disk w k p = None) \<and> (\<forall>k. net w k \<noteq> Refused) \<and> rc < MAX_RETRIES"
    then obtain r where l: "net w (connects w) = Link r"
      by (cases "net w (connects w)") auto
    let ?w1 = "w\<lparr>connects := connects w + 1, trace := trace w @ [Connect]\<rparr>"
    let ?w2 = "emit (?w1\<lparr>opens := opens ?w1 + 1\<rparr>) (FailedToOpen p)"
    have "disk ?w1 (opens ?w1) p = None" using inv by simp
    then have sf: "send_file L \<lparr>sent = [], room = r\<rparr> p ?w1
        = Some (Inr False, \<lparr>sent = [], room = r\<rparr>, ?w2)"
      by (rule send_file_open_fail)
    from inv have rc: "rc < MAX_RETRIES" by simp
    from body have "f L p rc (close_socket ?w2 \<lparr>sent = [], room = r\<rparr>) = Some y"
      by (simp only: rc if_True asio_connect_link [OF l] prod.case option.case sf sum.case if_False)
    from IH [OF this] inv show False
      by (simp add: close_socket_def emit_def)
  qed
qed

lemma retry_round_ok:
  assumes rc: "rc < MAX_RETRIES"
    and l: "net w (connects w) = Link r"
    and ct: "can_take \<lparr>sent = [], room = r\<rparr> (44 + length p + length c)"
    and o1: "disk w (opens w) p = Some c"
    and o2: "disk w (opens w + 1) p = Some c2"
    and t1: "tell w (opens w) p = int (length c)"
    and n: "length c < 2 ^ 64"
    and pl: "length p < 2 ^ 32"
  shows "retry_loop L p rc w = Some (Inr (),
    w\<lparr>connects := connects w + 1, opens := opens w + 2,
      trace := trace w @ [Connect] @ progress_events (length c) @
        [Endl, CalculatedMD5 (render_digest (streaming_hash L c2)),
         SentFile p (of_nat (length c)) (render_digest (streaming_hash L c2))],
      wires := wires w @ [frame p c (render_digest (streaming_hash L c2))]\<rparr>)"
proof -
  let ?w1 = "w\<lparr>connects := connects w + 1, trace := trace w @ [Connect]\<rparr>"
  have o1': "disk ?w1 (opens ?w1) p = Some c" using o1 by simp
  have o2': "disk ?w1 (opens ?w1 + 1) p = Some c2" using o2 by simp
  have t1': "tell ?w1 (opens ?w1) p = int (length c)" using t1 by simp
  note sf = send_file_ok [OF o1' o2' t1' n pl ct, of L]
  show ?thesis
    unfolding retry_send [OF rc l sf]
    by (simp add: close_socket_def advance_def)
qed

lemma second_round:
  assumes rc: "rc < MAX_RETRIES"
    and l: "net v (connects v) = Link None"
    and d: "\<forall>k. disk v k p = Some c"
    and t: "\<forall>k. tell v k p = int (length c)"
    and n: "length c < 2 ^ 64"
    and pl: "length p < 2 ^ 32"
  shows "\<exists>w'. retry_loop L p rc v = Some (Inr (), w') \<and> connects w' = connects v + 1
    \<and> wires w' = wires v @ [frame p c (render_digest (streaming_hash L c))]"
proof -
  have ct: "can_take \<lparr>sent = [], room = None\<rparr> (44 + length p + length c)"
    by (simp add: can_take_def)
  from d have o1: "disk v (opens v) p = Some c" and o2: "disk v (opens v + 1) p = Some c" by simp_all
  from t have t1: "tell v (opens v) p = int (length c)" by simp
  show ?thesis
    unfolding retry_round_ok [OF rc l ct o1 o2 t1 n pl, of L] by simp
qed

lemma main_abort:
  "manage_connection L p (emit w Connecting) = Some (Inl e, w') \<Longrightarrow>
   main L ((p, True) # rest) w = Some (0, emit w' (Error e))"
  by (simp add: main_def)

lemma frame_a_123:
  "frame ''a'' [1, 2, 3] (render_digest (streaming_hash sum_lib [1, 2, 3]))
    = [0, 0, 0, 1, 97, 0, 0, 0, 3, 1, 2, 3, 0, 0, 0, 32,
       48, 54, 48, 54, 48, 54, 48, 54, 48, 54, 48, 54, 48, 54, 48, 54,
       48, 54, 48, 54, 48, 54, 48, 54, 48, 54, 48, 54, 48, 54, 48, 54]"
  by (simp add: frame_def digest_123 htonl_bytes_def string_bytes_def)

subsection \<open>The claims\<close>

text \<open>
  C5. When the resolver answers and every connection attempt is refused,
  \<^verbatim>\<open>manage_connection\<close> makes exactly three attempts, prints the error and sleeps
  \<open>RETRY_INTERVAL = 5\<close> seconds after each of them, reports the failure and returns
  normally; the loop of \<^verbatim>\<open>main\<close> then goes on with the remaining entries.
\<close>

theorem C5_retry_exhaustion:
  assumes r: "dns w (resolves w)"
    and c: "\<forall>k. net w k = Refused"
  shows "manage_connection L p w =
      Some (Inr (),
        w\<lparr>resolves := resolves w + 1, connects := connects w + 3,
          trace := trace w @
            [Resolve,
             Connect, ConnectionError 1, Sleep 5,
             Connect, ConnectionError 2, Sleep 5,
             Connect, ConnectionError 3, Sleep 5,
             FailedAfterRetries]\<rparr>)
    \<and> for_entries L ((p, True) # rest) w =
        for_entries L rest
          (w\<lparr>resolves := resolves w + 1, connects := connects w + 3,
            trace := trace w @
              [Connecting, Resolve,
               Connect, ConnectionError 1, Sleep 5,
               Connect, ConnectionError 2, Sleep 5,
               Connect, ConnectionError 3, Sleep 5,
               FailedAfterRetries]\<rparr>)"
proof -
  have m: "manage_connection L p v =
      Some (Inr (),
        v\<lparr>resolves := resolves v + 1, connects := connects v + 3,
          trace := trace v @
            [Resolve,
             Connect, ConnectionError 1, Sleep 5,
             Connect, ConnectionError 2, Sleep 5,
             Connect, ConnectionError 3, Sleep 5,
             FailedAfterRetries]\<rparr>)"
    if "dns v (resolves v)" "\<forall>k. net v k = Refused" for v
    using that
    by (simp add: resolve_ok retry_connect_refused retry_exhausted MAX_RETRIES_def
        RETRY_INTERVAL_def emit_def)
  have "manage_connection L p (emit w Connecting) =
      Some (Inr (),
        w\<lparr>resolves := resolves w + 1, connects := connects w + 3,
            trace := trace w @
              [Connecting, Resolve,
               Connect, ConnectionError 1, Sleep 5,
               Connect, ConnectionError 2, Sleep 5,
               Connect, ConnectionError 3, Sleep 5,
               FailedAfterRetries]\<rparr>)"
    using m [of "emit w Connecting"] r c by (simp add: emit_def)
  then show ?thesis using m [OF r c] by simp
qed


theorem C5_witness:
  "map_option (\<lambda>(r, w). (r, connects w, trace w))
     (manage_connection sum_lib ''a'' (fresh_world (\<lambda>_. True) (\<lambda>_. Refused) (\<lambda>_ _. Some [1])))
   = Some (Inr (), 3,
       [Resolve, Connect, ConnectionError 1, Sleep 5, Connect, ConnectionError 2, Sleep 5,
        Connect, ConnectionError 3, Sleep 5, FailedAfterRetries])"
proof -
  let ?w = "fresh_world (\<lambda>_. True) (\<lambda>_. Refused) (\<lambda>_ _. Some [1])"
  have r: "dns ?w (resolves ?w)" by (simp add: fresh_world_def)
  have c: "\<forall>k. net ?w k = Refused" by (simp add: fresh_world_def)
  from C5_retry_exhaustion [OF r c, of sum_lib "''a''" "[]"] show ?thesis
    by (simp add: fresh_world_def)
qed

text \<open>
  C3 says that a transfer returning false counts as an attempt, so that there are at most
  three. In the program only the \<^verbatim>\<open>catch\<close> block increments \<^verbatim>\<open>retry_count\<close>. For a
  file that cannot be opened, with a resolver that answers and a server that accepts every
  connection, \<^verbatim>\<open>manage_connection\<close> never returns: after four rounds, each a new
  connection and a failed open, the loop is where it started, with \<^verbatim>\<open>retry_count\<close> still 0
  and no sleep in between.
\<close>

theorem C3_unreadable_file_retried_without_bound:
  assumes r: "dns w (resolves w)"
    and c: "\<forall>k. net w k = Link None"
    and o: "\<forall>k. disk w k p = None"
  shows "manage_connection L p w = None
    \<and> retry_loop L p 0 w = retry_loop L p 0
        (w\<lparr>connects := connects w + 4, opens := opens w + 4,
           trace := trace w @ [Connect, FailedToOpen p, Connect, FailedToOpen p,
                               Connect, FailedToOpen p, Connect, FailedToOpen p],
           wires := wires w @ [[], [], [], []]\<rparr>)"
proof -
  let ?w1 = "w\<lparr>resolves := resolves w + 1, trace := trace w @ [Resolve]\<rparr>"
  have "manage_connection L p w = None"
  proof (cases "manage_connection L p w")
    case None
    then show ?thesis .
  next
    case (Some y)
    then have "retry_loop L p 0 ?w1 = Some y" using r by (simp add: resolve_ok)
    from retry_never_returns [OF this] c o show ?thesis by (simp add: MAX_RETRIES_def)
  qed
  moreover have step: "retry_loop L p 0 v = retry_loop L p 0
      (v\<lparr>connects := connects v + 1, opens := opens v + 1,
         trace := trace v @ [Connect, FailedToOpen p], wires := wires v @ [[]]\<rparr>)"
    if "net v = net w" "disk v = disk w" for v
    using that c o by (intro retry_open_fails [where r = None]) (simp_all add: MAX_RETRIES_def)
  have "retry_loop L p 0 w = retry_loop L p 0
        (w\<lparr>connects := connects w + 4, opens := opens w + 4,
           trace := trace w @ [Connect, FailedToOpen p, Connect, FailedToOpen p,
                               Connect, FailedToOpen p, Connect, FailedToOpen p],
           wires := wires w @ [[], [], [], []]\<rparr>)"
    apply (subst step, simp, simp)
    apply (subst step, simp, simp)
    apply (subst step, simp, simp)
    apply (subst step, simp, simp)
    apply (simp add: numeral_eq_Suc)
    done
  ultimately show ?thesis by blast
qed

theorem C3_witness:
  "manage_connection sum_lib ''a'' (fresh_world (\<lambda>_. True) (\<lambda>_. Link None) (\<lambda>_ _. None)) = None"
proof -
  let ?w = "fresh_world (\<lambda>_. True) (\<lambda>_. Link None) (\<lambda>_ _. None)"
  have r: "dns ?w (resolves ?w)" by (simp add: fresh_world_def)
  have c: "\<forall>k. net ?w k = Link None" by (simp add: fresh_world_def)
  have o: "\<forall>k. disk ?w k ''a'' = None" by (simp add: fresh_world_def)
  from C3_unreadable_file_retried_without_bound [OF r c o, of sum_lib] show ?thesis by blast
qed

text \<open>
  C9. For a readable file: when the resolver fails, \<^verbatim>\<open>manage_connection\<close> ends with
  the resolver's \<^verbatim>\<open>system_error\<close> after that single call, with no connection attempt, and
  \<^verbatim>\<open>main\<close> prints the error and returns without touching the remaining entries. A
  refused connection and a failed write are retried for the same file: when the next
  connection is sound, \<^verbatim>\<open>manage_connection\<close> returns normally after two connection
  attempts, the second of which carries the complete frame. For these two retries the
  file is one that does not change: every \<^verbatim>\<open>tellg()\<close> reports the number of bytes the
  reads deliver.
\<close>

theorem C9_resolution_failure_aborts_batch:
  assumes d: "\<forall>k. disk w k p = Some c"
    and n: "length c < 2 ^ 64"
    and pl: "length p < 2 ^ 32"
  shows "(\<not> dns w (resolves w) \<longrightarrow>
        manage_connection L p w
          = Some (Inl system_error, w\<lparr>resolves := resolves w + 1, trace := trace w @ [Resolve]\<rparr>)
      \<and> main L ((p, True) # rest) w
          = Some (0, w\<lparr>resolves := resolves w + 1,
                       trace := trace w @ [Connecting, Resolve, Error system_error]\<rparr>))
    \<and> (dns w (resolves w) \<and> net w (connects w) = Refused \<and> net w (connects w + 1) = Link None
          \<and> (\<forall>k. tell w k p = int (length c)) \<longrightarrow>
        (\<exists>w'. manage_connection L p w = Some (Inr (), w') \<and> connects w' = connects w + 2
           \<and> wires w' = wires w @ [frame p c (render_digest (streaming_hash L c))]))
    \<and> (dns w (resolves w) \<and> net w (connects w) = Link (Some r) \<and> r < 44 + length p + length c
          \<and> net w (connects w + 1) = Link None \<and> (\<forall>k. tell w k p = int (length c)) \<longrightarrow>
        (\<exists>w' partial. manage_connection L p w = Some (Inr (), w') \<and> connects w' = connects w + 2
           \<and> wires w' = wires w @ [partial, frame p c (render_digest (streaming_hash L c))]))"
proof (intro conjI impI)
  assume nr: "\<not> dns w (resolves w)"
  show "manage_connection L p w
      = Some (Inl system_error, w\<lparr>resolves := resolves w + 1, trace := trace w @ [Resolve]\<rparr>)"
    using nr by (rule resolve_fail)
  have "\<not> dns (emit w Connecting) (resolves (emit w Connecting))" using nr by (simp add: emit_def)
  from main_abort [OF resolve_fail [OF this], of L p rest]
  show "main L ((p, True) # rest) w
      = Some (0, w\<lparr>resolves := resolves w + 1,
                   trace := trace w @ [Connecting, Resolve, Error system_error]\<rparr>)"
    by (simp add: emit_def)
next
  assume a: "dns w (resolves w) \<and> net w (connects w) = Refused \<and> net w (connects w + 1) = Link None
      \<and> (\<forall>k. tell w k p = int (length c))"
  let ?w1 = "w\<lparr>resolves := resolves w + 1, trace := trace w @ [Resolve]\<rparr>"
  let ?v = "?w1\<lparr>connects := connects ?w1 + 1,
       trace := trace ?w1 @ [Connect, ConnectionError (0 + 1), Sleep RETRY_INTERVAL]\<rparr>"
  have rc0: "(0::int) < MAX_RETRIES" and rc1: "(0::int) + 1 < MAX_RETRIES" by (simp_all add: MAX_RETRIES_def)
  have "net ?w1 (connects ?w1) = Refused" using a by simp
  from retry_connect_refused [OF rc0 this, of L p]
  have st: "manage_connection L p w = retry_loop L p (0 + 1) ?v"
    using a by (simp add: resolve_ok)
  have l: "net ?v (connects ?v) = Link None" using a by simp
  have dv: "\<forall>k. disk ?v k p = Some c" using d by simp
  have tv: "\<forall>k. tell ?v k p = int (length c)" using a by simp
  from second_round [OF rc1 l dv tv n pl, of L]
  show "\<exists>w'. manage_connection L p w = Some (Inr (), w') \<and> connects w' = connects w + 2
      \<and> wires w' = wires w @ [frame p c (render_digest (streaming_hash L c))]"
    unfolding st by auto
next
  assume a: "dns w (resolves w) \<and> net w (connects w) = Link (Some r) \<and> r < 44 + length p + length c
      \<and> net w (connects w + 1) = Link None \<and> (\<forall>k. tell w k p = int (length c))"
  let ?w1 = "w\<lparr>resolves := resolves w + 1, trace := trace w @ [Resolve]\<rparr>"
  let ?w2 = "?w1\<lparr>connects := connects ?w1 + 1, trace := trace ?w1 @ [Connect]\<rparr>"
  let ?sock = "\<lparr>sent = [], room = Some r\<rparr>"
  have rc0: "(0::int) < MAX_RETRIES" and rc1: "(0::int) + 1 < MAX_RETRIES" by (simp_all add: MAX_RETRIES_def)
  have st: "manage_connection L p w = retry_loop L p 0 ?w1" using a by (simp add: resolve_ok)
  have l1: "net ?w1 (connects ?w1) = Link (Some r)" using a by simp
  have o1: "disk ?w2 (opens ?w2) p = Some c" and o2: "disk ?w2 (opens ?w2 + 1) p = Some c"
    using d by simp_all
  have t1: "tell ?w2 (opens ?w2) p = int (length c)" using a by simp
  have nct: "\<not> can_take ?sock (44 + length p + length c)" using a by (simp add: can_take_def)
  have "\<exists>res s' k t. send_file L ?sock p ?w2 = Some (res, s', ?w2\<lparr>opens := opens ?w2 + k, trace := trace ?w2 @ t\<rparr>)
      \<and> (res = Inl system_error \<or> res = Inr False)"
  proof (cases "can_take ?sock (8 + length p + length c)")
    case False
    from send_file_fail_early [OF o1 t1 n pl False, of L] show ?thesis by blast
  next
    case True
    from send_file_fail_late [OF o1 o2 t1 n pl True nct, of L] show ?thesis by blast
  qed
  then obtain res s' k t where
    sf: "send_file L ?sock p ?w2 = Some (res, s', ?w2\<lparr>opens := opens ?w2 + k, trace := trace ?w2 @ t\<rparr>)"
    and res: "res = Inl system_error \<or> res = Inr False"
    by blast
  let ?w3 = "close_socket (?w2\<lparr>opens := opens ?w2 + k, trace := trace ?w2 @ t\<rparr>) s'"
  from res show "\<exists>w' partial. manage_connection L p w = Some (Inr (), w') \<and> connects w' = connects w + 2
      \<and> wires w' = wires w @ [partial, frame p c (render_digest (streaming_hash L c))]"
  proof
    assume e: "res = Inl system_error"
    let ?v = "emit (emit ?w3 (ConnectionError (0 + 1))) (Sleep RETRY_INTERVAL)"
    have st2: "manage_connection L p w = retry_loop L p (0 + 1) ?v"
      unfolding st retry_send [OF rc0 l1 sf] e by simp
    have l: "net ?v (connects ?v) = Link None" using a by (simp add: emit_def close_socket_def)
    have dv: "\<forall>k. disk ?v k p = Some c" using d by (simp add: emit_def close_socket_def)
    have tv: "\<forall>k. tell ?v k p = int (length c)" using a by (simp add: emit_def close_socket_def)
    from second_round [OF rc1 l dv tv n pl, of L] show ?thesis
      unfolding st2 by (auto simp: emit_def close_socket_def)
  next
    assume e: "res = Inr False"
    have st2: "manage_connection L p w = retry_loop L p 0 ?w3"
      unfolding st retry_send [OF rc0 l1 sf] e by simp
    have l: "net ?w3 (connects ?w3) = Link None" using a by (simp add: close_socket_def)
    have dv: "\<forall>k. disk ?w3 k p = Some c" using d by (simp add: close_socket_def)
    have tv: "\<forall>k. tell ?w3 k p = int (length c)" using a by (simp add: close_socket_def)
    from second_round [OF rc0 l dv tv n pl, of L] show ?thesis
      unfolding st2 by (auto simp: close_socket_def)
  qed
qed

theorem C9_witness:
  "main sum_lib [(''a'', True), (''b'', True)]
       (fresh_world (\<lambda>_. False) (\<lambda>_. Link None) (\<lambda>_ _. Some [1, 2, 3]))
     = Some (0, fresh_world (\<lambda>_. False) (\<lambda>_. Link None) (\<lambda>_ _. Some [1, 2, 3])
                  \<lparr>resolves := 1, trace := [Connecting, Resolve, Error system_error]\<rparr>)
   \<and> (\<exists>w'. manage_connection sum_lib ''a''
         (fresh_world (\<lambda>_. True) (\<lambda>k. if k = 0 then Refused else Link None) (\<lambda>_ _. Some [1, 2, 3]))
           = Some (Inr (), w')
        \<and> connects w' = 2
        \<and> wires w' = [[0, 0, 0, 1, 97, 0, 0, 0, 3, 1, 2, 3, 0, 0, 0, 32,
             48, 54, 48, 54, 48, 54, 48, 54, 48, 54, 48, 54, 48, 54, 48, 54,
             48, 54, 48, 54, 48, 54, 48, 54, 48, 54, 48, 54, 48, 54, 48, 54]])
   \<and> (\<exists>w' partial. manage_connection sum_lib ''a''
         (fresh_world (\<lambda>_. True) (\<lambda>k. if k = 0 then Link (Some 10) else Link None)
            (\<lambda>_ _. Some [1, 2, 3]))
           = Some (Inr (), w')
        \<and> connects w' = 2
        \<and> wires w' = [partial, [0, 0, 0, 1, 97, 0, 0, 0, 3, 1, 2, 3, 0, 0, 0, 32,
             48, 54, 48, 54, 48, 54, 48, 54, 48, 54, 48, 54, 48, 54, 48, 54,
             48, 54, 48, 54, 48, 54, 48, 54, 48, 54, 48, 54, 48, 54, 48, 54]])"
proof -
  let ?d = "\<lambda>(_::nat) (_::path). Some [1, 2, 3 :: byte]"
  let ?wa = "fresh_world (\<lambda>_. False) (\<lambda>_. Link None) ?d"
  let ?wb = "fresh_world (\<lambda>_. True) (\<lambda>k. if k = 0 then Refused else Link None) ?d"
  let ?wc = "fresh_world (\<lambda>_. True) (\<lambda>k. if k = 0 then Link (Some 10) else Link None) ?d"
  have n: "length [1, 2, 3 :: byte] < 2 ^ 64" and pl: "length ''a'' < 2 ^ 32" by simp_all
  have da: "\<forall>k. disk ?wa k ''a'' = Some [1, 2, 3]"
    and db: "\<forall>k. disk ?wb k ''a'' = Some [1, 2, 3]"
    and dc: "\<forall>k. disk ?wc k ''a'' = Some [1, 2, 3]"
    by (simp_all add: fresh_world_def)
  have a: "\<not> dns ?wa (resolves ?wa)" by (simp add: fresh_world_def)
  have b: "dns ?wb (resolves ?wb) \<and> net ?wb (connects ?wb) = Refused \<and> net ?wb (connects ?wb + 1) = Link None
      \<and> (\<forall>k. tell ?wb k ''a'' = int (length [1, 2, 3 :: byte]))"
    by (simp add: fresh_world_def)
  have c: "dns ?wc (resolves ?wc) \<and> net ?wc (connects ?wc) = Link (Some 10)
      \<and> 10 < 44 + length ''a'' + length [1, 2, 3 :: byte] \<and> net ?wc (connects ?wc + 1) = Link None
      \<and> (\<forall>k. tell ?wc k ''a'' = int (length [1, 2, 3 :: byte]))"
    by (simp add: fresh_world_def)
  from C9_resolution_failure_aborts_batch [OF da n pl, of sum_lib "[(''b'', True)]"] a
  have 1: "main sum_lib [(''a'', True), (''b'', True)] ?wa
      = Some (0, ?wa\<lparr>resolves := 1, trace := [Connecting, Resolve, Error system_error]\<rparr>)"
    by (simp add: fresh_world_def)
  have z: "connects ?wb = 0" "wires ?wb = []" "connects ?wc = 0" "wires ?wc = []"
    by (simp_all add: fresh_world_def)
  from C9_resolution_failure_aborts_batch [OF db n pl, of sum_lib] b
  have "\<exists>w'. manage_connection sum_lib ''a'' ?wb = Some (Inr (), w') \<and> connects w' = connects ?wb + 2
      \<and> wires w' = wires ?wb @ [frame ''a'' [1, 2, 3] (render_digest (streaming_hash sum_lib [1, 2, 3]))]"
    by blast
  then have 2: "\<exists>w'. manage_connection sum_lib ''a'' ?wb = Some (Inr (), w') \<and> connects w' = 2
      \<and> wires w' = [[0, 0, 0, 1, 97, 0, 0, 0, 3, 1, 2, 3, 0, 0, 0, 32,
             48, 54, 48, 54, 48, 54, 48, 54, 48, 54, 48, 54, 48, 54, 48, 54,
             48, 54, 48, 54, 48, 54, 48, 54, 48, 54, 48, 54, 48, 54, 48, 54]]"
    unfolding z frame_a_123 by (simp add: numeral_2_eq_2)
  from C9_resolution_failure_aborts_batch [OF dc n pl, of sum_lib _ 10] c
  have "\<exists>w' partial. manage_connection sum_lib ''a'' ?wc = Some (Inr (), w') \<and> connects w' = connects ?wc + 2
      \<and> wires w' = wires ?wc @ [partial, frame ''a'' [1, 2, 3] (render_digest (streaming_hash sum_lib [1, 2, 3]))]"
    by blast
  then have 3: "\<exists>w' partial. manage_connection sum_lib ''a'' ?wc = Some (Inr (), w') \<and> connects w' = 2
      \<and> wires w' = [partial, [0, 0, 0, 1, 97, 0, 0, 0, 3, 1, 2, 3, 0, 0, 0, 32,
             48, 54, 48, 54, 48, 54, 48, 54, 48, 54, 48, 54, 48, 54, 48, 54,
             48, 54, 48, 54, 48, 54, 48, 54, 48, 54, 48, 54, 48, 54, 48, 54]]"
    unfolding z frame_a_123 by (simp add: numeral_2_eq_2)
  show ?thesis by (rule conjI [OF 1 conjI [OF 2 3]])
qed

text \<open>
  C10. The checksum is computed from a second open of the file, after the name, the size
  and the whole payload are on the connection (the payload of a file that did not change
  while it was read: \<^verbatim>\<open>tellg()\<close> reported the number of bytes the reads delivered).
  When that second open fails,
  \<^verbatim>\<open>send_file\<close> ends with the \<^verbatim>\<open>runtime_error\<close> of \<^verbatim>\<open>calculate_md5\<close>,
  \<^verbatim>\<open>manage_connection\<close> lets it through (no retry, no failure report for the file), and
  \<^verbatim>\<open>main\<close> prints it and returns without the remaining entries.
\<close>

theorem C10_checksum_reopen_failure_aborts_batch:
  assumes r: "dns w (resolves w)"
    and l: "net w (connects w) = Link rm"
    and ct: "can_take \<lparr>sent = [], room = rm\<rparr> (8 + length p + length c)"
    and o1: "disk w (opens w) p = Some c"
    and o2: "disk w (opens w + 1) p = None"
    and t1: "tell w (opens w) p = int (length c)"
    and n: "length c < 2 ^ 64"
    and pl: "length p < 2 ^ 32"
  shows "send_file L \<lparr>sent = [], room = rm\<rparr> p w
      = Some (Inl runtime_error,
          advance \<lparr>sent = [], room = rm\<rparr>
            (htonl_bytes (of_nat (length p)) @ string_bytes p @ htonl_bytes (of_nat (length c)) @ c),
          w\<lparr>opens := opens w + 2, trace := trace w @ progress_events (length c) @ [Endl]\<rparr>)
    \<and> manage_connection L p w
      = Some (Inl runtime_error,
          w\<lparr>resolves := resolves w + 1, connects := connects w + 1, opens := opens w + 2,
            trace := trace w @ [Resolve, Connect] @ progress_events (length c) @ [Endl],
            wires := wires w @
              [htonl_bytes (of_nat (length p)) @ string_bytes p @ htonl_bytes (of_nat (length c)) @ c]\<rparr>)
    \<and> main L ((p, True) # rest) w
      = Some (0,
          w\<lparr>resolves := resolves w + 1, connects := connects w + 1, opens := opens w + 2,
            trace := trace w @ [Connecting, Resolve, Connect] @ progress_events (length c) @
              [Endl, Error runtime_error],
            wires := wires w @
              [htonl_bytes (of_nat (length p)) @ string_bytes p @ htonl_bytes (of_nat (length c)) @ c]\<rparr>)"
proof -
  let ?sock = "\<lparr>sent = [], room = rm\<rparr>"
  let ?hdr = "htonl_bytes (of_nat (length p)) @ string_bytes p @ htonl_bytes (of_nat (length c)) @ c"
  have rc0: "(0::int) < MAX_RETRIES" by (simp add: MAX_RETRIES_def)
  have m: "manage_connection L p v
      = Some (Inl runtime_error,
          v\<lparr>resolves := resolves v + 1, connects := connects v + 1, opens := opens v + 2,
            trace := trace v @ [Resolve, Connect] @ progress_events (length c) @ [Endl],
            wires := wires v @ [?hdr]\<rparr>)"
    if v: "dns v (resolves v)" "net v (connects v) = Link rm" "disk v (opens v) p = Some c"
      "disk v (opens v + 1) p = None" "tell v (opens v) p = int (length c)" for v
  proof -
    let ?v1 = "v\<lparr>resolves := resolves v + 1, trace := trace v @ [Resolve]\<rparr>"
    let ?v2 = "?v1\<lparr>connects := connects ?v1 + 1, trace := trace ?v1 @ [Connect]\<rparr>"
    have l1: "net ?v1 (connects ?v1) = Link rm" using v by simp
    have p1: "disk ?v2 (opens ?v2) p = Some c" and p2: "disk ?v2 (opens ?v2 + 1) p = None"
      and p3: "tell ?v2 (opens ?v2) p = int (length c)"
      using v by simp_all
    note sf = send_file_md5_fail [OF p1 p2 p3 n pl ct, of L]
    show ?thesis
      unfolding resolve_ok [OF v(1)] retry_send [OF rc0 l1 sf]
      by (simp add: close_socket_def sent_advance)
  qed
  have 1: "send_file L ?sock p w
      = Some (Inl runtime_error, advance ?sock ?hdr,
          w\<lparr>opens := opens w + 2, trace := trace w @ progress_events (length c) @ [Endl]\<rparr>)"
    by (rule send_file_md5_fail [OF o1 o2 t1 n pl ct])
  have 2: "manage_connection L p w
      = Some (Inl runtime_error,
          w\<lparr>resolves := resolves w + 1, connects := connects w + 1, opens := opens w + 2,
            trace := trace w @ [Resolve, Connect] @ progress_events (length c) @ [Endl],
            wires := wires w @ [?hdr]\<rparr>)"
    using r l o1 o2 t1 by (rule m)
  have "manage_connection L p (emit w Connecting)
      = Some (Inl runtime_error,
          (emit w Connecting)\<lparr>resolves := resolves w + 1, connects := connects w + 1, opens := opens w + 2,
            trace := trace w @ [Connecting, Resolve, Connect] @ progress_events (length c) @ [Endl],
            wires := wires w @ [?hdr]\<rparr>)"
    using m [of "emit w Connecting"] r l o1 o2 t1 by (simp add: emit_def)
  from main_abort [OF this, of rest]
  have 3: "main L ((p, True) # rest) w
      = Some (0,
          w\<lparr>resolves := resolves w + 1, connects := connects w + 1, opens := opens w + 2,
            trace := trace w @ [Connecting, Resolve, Connect] @ progress_events (length c) @
              [Endl, Error runtime_error],
            wires := wires w @ [?hdr]\<rparr>)"
    by (simp add: emit_def)
  from 1 2 3 show ?thesis by blast
qed

theorem C10_witness:
  "map_option (\<lambda>(r, w). (r, connects w, opens w, trace w, wires w))
     (main sum_lib [(''a'', True), (''b'', True)]
       (fresh_world (\<lambda>_. True) (\<lambda>_. Link None) (\<lambda>k _. if k = 0 then Some [1, 2, 3] else None)))
   = Some (0, 1, 2,
       [Connecting, Resolve, Connect, Progress 100, Endl, Error runtime_error],
       [[0, 0, 0, 1, 97, 0, 0, 0, 3, 1, 2, 3]])"
proof -
  let ?w = "fresh_world (\<lambda>_. True) (\<lambda>_. Link None) (\<lambda>k _. if k = 0 then Some [1, 2, 3] else None)"
  have r: "dns ?w (resolves ?w)" and l: "net ?w (connects ?w) = Link None"
    and o1: "disk ?w (opens ?w) ''a'' = Some [1, 2, 3]" and o2: "disk ?w (opens ?w + 1) ''a'' = None"
    and t1: "tell ?w (opens ?w) ''a'' = int (length [1, 2, 3 :: byte])"
    by (simp_all add: fresh_world_def)
  have ct: "can_take \<lparr>sent = [], room = None\<rparr> (8 + length ''a'' + length [1, 2, 3 :: byte])"
    by (simp add: can_take_def)
  have n: "length [1, 2, 3 :: byte] < 2 ^ 64" and pl: "length ''a'' < 2 ^ 32" by simp_all
  have pe: "progress_events (length [1, 2, 3 :: byte]) = [Progress 100]"
    by (simp add: progress_events_def rounds_def bytes_sent_after_def CHUNK_SIZE_def)
  from C10_checksum_reopen_failure_aborts_batch [OF r l ct o1 o2 t1 n pl, of sum_lib "[(''b'', True)]"]
  have "main sum_lib [(''a'', True), (''b'', True)] ?w
      = Some (0,
          ?w\<lparr>resolves := resolves ?w + 1, connects := connects ?w + 1, opens := opens ?w + 2,
            trace := trace ?w @ [Connecting, Resolve, Connect] @ progress_events (length [1, 2, 3 :: byte]) @
              [Endl, Error runtime_error],
            wires := wires ?w @
              [htonl_bytes (of_nat (length ''a'')) @ string_bytes ''a'' @
               htonl_bytes (of_nat (length [1, 2, 3 :: byte])) @ [1, 2, 3]]\<rparr>)"
    by blast
  then show ?thesis
    unfolding pe by (simp add: fresh_world_def htonl_bytes_def string_bytes_def)
qed

end
